theory Spec2Isabelle
  imports Main "HOL-Library.Sublist" "HOL-Library.Multiset"
    "HOL-Library.Char_ord" "HOL-Library.List_Lexorder"
begin

section \<open>The builder catalog: \<open>builders\<close>\<close>

text \<open>
  The Go structs of \<open>builders\<close>. Two of them have fields of the same name
  (\<open>IsReverse\<close>, \<open>ExpectNum\<close>), so the fields of the host descriptor carry the prefix
  \<open>h\<close>. Go's \<open>int\<close> is only stored and copied here, so it is an \<open>int\<close>.
\<close>

record builderType =
  Name :: string
  IsReverse :: bool
  ExpectNum :: int

record builderInfo =
  HostType :: string

record hostInfo =
  hIsReverse :: bool
  hExpectNum :: int
  ContainerImage :: string
  VMImage :: string

text \<open>
  \<open>resj\<close> is the decoded response. \<open>Builders\<close> is a Go map; the \<open>range\<close> loop visits its
  entries in an order the language leaves open, so the model takes the entries as the
  list in which the loop visits them (the keys of a map are distinct). \<open>Hosts\<close> is only
  looked up, so it is a partial function.
\<close>

record resj =
  Builders :: "(string \<times> builderInfo) list"
  Hosts :: "string \<rightharpoonup> hostInfo"

text \<open>
  What the HTTP request and the JSON decoder hand to the function. Each of the three
  failures ends the process through \<open>log.Fatal\<close>.
\<close>

datatype fetched =
    GetFailed string
  | BadStatus string
  | DecodeFailed string
  | Decoded resj

datatype fatal = Fatal string

text \<open>Lines 59 to 75: the loop over the builders, appending to \<open>bt\<close>.\<close>

fun builders_range :: "(string \<rightharpoonup> hostInfo) \<Rightarrow> (string \<times> builderInfo) list
    \<Rightarrow> builderType list \<Rightarrow> builderType list" where
  "builders_range hosts [] bt = bt"
| "builders_range hosts ((b, bi) # rest) bt =
     (if prefix ''misc-compile'' b then builders_range hosts rest bt
      else case hosts (HostType bi) of
        None \<Rightarrow> builders_range hosts rest bt
      | Some hi \<Rightarrow>
          if \<not> hIsReverse hi \<and> ContainerImage hi = '''' \<and> VMImage hi = ''''
          then builders_range hosts rest bt
          else builders_range hosts rest
                 (bt @ [\<lparr>Name = b, IsReverse = hIsReverse hi, ExpectNum = hExpectNum hi\<rparr>]))"

text \<open>
  \<open>sort.Slice\<close> with the comparison \<open>bt[i].Name < bt[j].Name\<close>. Go compares strings
  byte by byte, a proper prefix first: the lexicographic order of \<open>char list\<close> over the
  order of \<open>char\<close> by code. \<open>sort.Slice\<close> is not stable; the names it sorts here are
  distinct keys of a map, so every sorting function gives the same list.
\<close>

definition sort_Slice :: "builderType list \<Rightarrow> builderType list" where
  "sort_Slice bt = sort_key Name bt"

definition builders :: "fetched \<Rightarrow> fatal + builderType list" where
  "builders res =
     (case res of
        GetFailed e \<Rightarrow> Inl (Fatal e)
      | BadStatus s \<Rightarrow> Inl (Fatal (''fetching builder types: '' @ s))
      | DecodeFailed e \<Rightarrow> Inl (Fatal (''decoding builder types: '' @ e))
      | Decoded r \<Rightarrow> Inr (sort_Slice (builders_range (Hosts r) (Builders r) [])))"

text \<open>The entry of a builder passes the three tests of the loop.\<close>

definition kept :: "(string \<rightharpoonup> hostInfo) \<Rightarrow> string \<times> builderInfo \<Rightarrow> bool" where
  "kept hosts e =
     (\<not> prefix ''misc-compile'' (fst e) \<and>
      (case hosts (HostType (snd e)) of
         None \<Rightarrow> False
       | Some hi \<Rightarrow> hIsReverse hi \<or> ContainerImage hi \<noteq> '''' \<or> VMImage hi \<noteq> ''''))"

text \<open>A response with one builder of each kind, used to instantiate the theorems below.\<close>

definition example_resj :: resj where
  "example_resj =
     \<lparr>Builders =
        [(''plan9-386'', \<lparr>HostType = ''host-bare''\<rparr>),
         (''linux-amd64'', \<lparr>HostType = ''host-linux''\<rparr>),
         (''misc-compile-mips'', \<lparr>HostType = ''host-linux''\<rparr>),
         (''solaris-amd64'', \<lparr>HostType = ''host-gone''\<rparr>),
         (''aix-ppc64'', \<lparr>HostType = ''host-aix''\<rparr>)],
      Hosts =
        [''host-linux'' \<mapsto>
           \<lparr>hIsReverse = False, hExpectNum = 0,
            ContainerImage = ''linux-x86:latest'', VMImage = []\<rparr>,
         ''host-aix'' \<mapsto>
           \<lparr>hIsReverse = True, hExpectNum = 2, ContainerImage = [], VMImage = []\<rparr>,
         ''host-bare'' \<mapsto>
           \<lparr>hIsReverse = False, hExpectNum = 0, ContainerImage = [], VMImage = []\<rparr>]\<rparr>"

section \<open>The orchestrator: \<open>create\<close>\<close>

subsection \<open>Data\<close>

text \<open>An error value is modelled by its message.\<close>

type_synonym error = string

text \<open>
  Modelled from the spec: the group type, which is declared outside the file of
  \<open>create\<close>. Section 3 gives it a name and an ordered sequence of instance IDs;
  \<open>create\<close> only tests the pointer to it and appends to \<open>Instances\<close>.
\<close>

record group =
  GroupName :: string
  Instances :: "string list"

text \<open>
  Modelled from the spec: the message type \<open>CreateInstanceResponse\<close> of the
  \<open>protos\<close> package, as \<open>create\<close> reads it through its getters \<open>GetStatus\<close>,
  \<open>GetWaitersAhead\<close> and \<open>GetInstance().GetGomoteId()\<close> (the empty string when the
  message carries no instance). The code only compares the status with \<open>COMPLETE\<close>;
  the other value is named after section 6.
\<close>

datatype response_status = PENDING | COMPLETE

record CreateInstanceResponse =
  Status :: response_status
  WaitersAhead :: int
  GomoteId :: string

text \<open>
  What one call of \<open>stream.Recv()\<close> returns: a message, \<open>io.EOF\<close> or another error.
  A stream is the list of the results of its successive \<open>Recv\<close> calls; a \<open>Recv\<close> on
  the exhausted list never returns.
\<close>

datatype recv = Update CreateInstanceResponse | EOF | RecvErr error

text \<open>
  The command line after \<open>fs.Parse\<close>: the flags \<open>status\<close>, \<open>count\<close>, \<open>setup\<close> and
  \<open>new-group\<close> and the one positional argument, the builder type.
\<close>

record opts =
  opt_status :: bool
  opt_count :: int
  opt_setup :: bool
  opt_newGroup :: string
  opt_builderType :: string

text \<open>
  The collaborators of \<open>create\<close>, none of which is in its file. Each is a function of
  the arguments the code passes; those called inside a task take the index of the calling
  task first, so that two tasks may be answered differently (also after the shared
  context is cancelled). \<open>createInstance\<close> answers \<open>client.CreateInstance\<close> with an
  error or a stream.
\<close>

record env =
  mkdirTemp :: "error + string"
  activeGroup :: "group option"
  doCreateGroup :: "string \<Rightarrow> error + group"
  statusFromError :: "error \<Rightarrow> string"
  createInstance :: "nat \<Rightarrow> string \<Rightarrow> error + recv list"
  getGOROOT :: "nat \<Rightarrow> error + string"
  doPush :: "nat \<Rightarrow> string \<Rightarrow> string \<Rightarrow> bool \<Rightarrow> bool \<Rightarrow> error option"
  doRun :: "nat \<Rightarrow> string \<Rightarrow> string \<Rightarrow> string \<Rightarrow> string list \<Rightarrow> bool \<Rightarrow> error option"
  storeGroup :: "group \<Rightarrow> error option"

subsection \<open>What a task does\<close>

text \<open>
  The calls a task makes to its collaborators, with their arguments, and the lines it
  writes to standard error. The elapsed time that two of the lines print is real time and
  is left out.
\<close>

datatype call =
    CreateInstance string
  | Recv
  | GetGOROOT
  | DoPush string string bool bool
  | DoRun string string string "string list" bool

datatype stderr_line =
    StillCreating string nat int
  | PushingGOROOT string string
  | Running string string

text \<open>
  The effects of a task that another task or the caller can see, each of them atomic:
  a call, a line on standard error, \<open>fmt.Println(inst)\<close> on standard output, and the
  append to \<open>group.Instances\<close> under \<open>groupMu\<close>.
\<close>

datatype event =
    Call call
  | Stderr stderr_line
  | Stdout string
  | Append string

text \<open>A function returns a value, or never returns.\<close>

datatype 'a outcome = Returns 'a | NoReturn

text \<open>\<open>%d\<close> of a non-negative integer.\<close>

fun itoa :: "nat \<Rightarrow> string" where
  "itoa n = (if n < 10 then [''0123456789'' ! n]
             else itoa (n div 10) @ [''0123456789'' ! (n mod 10)])"

declare itoa.simps [simp del]

text \<open>\<open>strings.Contains(s, substr)\<close>: \<open>substr\<close> occurs in \<open>s\<close> as a contiguous block.\<close>

definition strings_Contains :: "string \<Rightarrow> string \<Rightarrow> bool" where
  "strings_Contains s substr = sublist substr s"

text \<open>
  Lines 205 to 218, the loop \<open>updateLoop\<close> of task \<open>i\<close> over the results of \<open>Recv\<close>,
  with the current value of \<open>inst\<close>. It ends in one of three ways: \<open>break updateLoop\<close>
  with the value of \<open>inst\<close>, the \<open>return\<close> of an error, or a \<open>Recv\<close> that never
  returns. The cases of the \<open>switch\<close> are tried in the order of the source; an update
  that matches none of them changes nothing.
\<close>

datatype loop_exit = Break string | Failed error | Blocked

fun updateLoop :: "opts \<Rightarrow> env \<Rightarrow> nat \<Rightarrow> recv list \<Rightarrow> string \<Rightarrow> event list \<times> loop_exit" where
  "updateLoop a env i [] inst = ([Call Recv], Blocked)"
| "updateLoop a env i (EOF # rest) inst = ([Call Recv], Break inst)"
| "updateLoop a env i (RecvErr err # rest) inst =
     ([Call Recv],
      Failed (''failed to create buildlet ('' @ itoa (i + 1) @ ''): '' @ statusFromError env err))"
| "updateLoop a env i (Update update # rest) inst =
     (if Status update \<noteq> COMPLETE \<and> opt_status a then
        (case updateLoop a env i rest inst of (evs, x) \<Rightarrow>
           (Call Recv #
            Stderr (StillCreating (opt_builderType a) (i + 1) (WaitersAhead update)) # evs, x))
      else if Status update = COMPLETE then
        (case updateLoop a env i rest (GomoteId update) of (evs, x) \<Rightarrow> (Call Recv # evs, x))
      else
        (case updateLoop a env i rest inst of (evs, x) \<Rightarrow> (Call Recv # evs, x)))"

text \<open>
  Lines 225 to 246, the end of the function that \<open>eg.Go\<close> runs for index \<open>i\<close>, from
  the test of \<open>setup\<close> on, with the value of \<open>inst\<close>: its effects in order, and what
  the function returns (\<open>None\<close> is \<open>nil\<close>).
\<close>

definition task_setup :: "opts \<Rightarrow> env \<Rightarrow> string \<Rightarrow> nat \<Rightarrow> string \<Rightarrow> event list \<times> error option outcome" where
  "task_setup a env tmpOutDir i inst =
     (if \<not> opt_setup a then ([], Returns None)
      else
        (let detailedProgress = (opt_count a = 1) in
         case getGOROOT env i of
           Inl err \<Rightarrow> ([Call GetGOROOT], Returns (Some err))
         | Inr goroot \<Rightarrow>
             (let pushing = Call GetGOROOT #
                    (if \<not> detailedProgress then [Stderr (PushingGOROOT goroot inst)] else []) @
                    [Call (DoPush inst goroot False detailedProgress)]
              in case doPush env i inst goroot False detailedProgress of
                   Some err \<Rightarrow> (pushing, Returns (Some err))
                 | None \<Rightarrow>
                     (let cmd = (if strings_Contains (opt_builderType a) ''windows''
                                 then ''go/src/make.bat'' else ''go/src/make.bash'')
                      in (pushing @
                          (if \<not> detailedProgress then [Stderr (Running cmd inst)] else []) @
                          [Call (DoRun inst tmpOutDir cmd [] (opt_count a = 1))],
                          Returns (doRun env i inst tmpOutDir cmd [] (opt_count a = 1)))))))"

text \<open>
  Lines 198 to 247, the whole function for index \<open>i\<close>. \<open>has_group\<close> is
  \<open>group != nil\<close>.
\<close>

definition create_task :: "opts \<Rightarrow> env \<Rightarrow> string \<Rightarrow> bool \<Rightarrow> nat \<Rightarrow> event list \<times> error option outcome" where
  "create_task a env tmpOutDir has_group i =
     (case createInstance env i (opt_builderType a) of
        Inl err \<Rightarrow>
          ([Call (CreateInstance (opt_builderType a))],
           Returns (Some (''failed to create buildlet: '' @ statusFromError env err)))
      | Inr stream \<Rightarrow>
          (case updateLoop a env i stream [] of
             (evs, Blocked) \<Rightarrow> (Call (CreateInstance (opt_builderType a)) # evs, NoReturn)
           | (evs, Failed e) \<Rightarrow> (Call (CreateInstance (opt_builderType a)) # evs, Returns (Some e))
           | (evs, Break inst) \<Rightarrow>
               (case task_setup a env tmpOutDir i inst of
                  (evs', r) \<Rightarrow>
                    (Call (CreateInstance (opt_builderType a)) # evs @ [Stdout inst] @
                     (if has_group then [Append inst] else []) @ evs', r))))"

subsection \<open>Tasks running side by side\<close>

text \<open>
  A task is a sequence of atomic steps: its effects, then its return (none when it never
  returns). Tasks read nothing that another task writes, so a run of \<open>n\<close> tasks is an
  interleaving of their step sequences. The scheduler is a list of task indices: each
  entry lets that task take its next step (an entry for a task with no step left, or for
  no task, does nothing).
\<close>

datatype step = Do event | Return "error option"

fun steps :: "event list \<times> error option outcome \<Rightarrow> step list" where
  "steps (evs, Returns r) = map Do evs @ [Return r]"
| "steps (evs, NoReturn) = map Do evs"

fun interleave :: "nat list \<Rightarrow> step list list \<Rightarrow> (nat \<times> step) list" where
  "interleave [] ts = []"
| "interleave (i # sched) ts =
     (if i < length ts then
        (case ts ! i of
           [] \<Rightarrow> interleave sched ts
         | s # rest \<Rightarrow> (i, s) # interleave sched (ts[i := rest]))
      else interleave sched ts)"

text \<open>
  The state the tasks share and the caller sees. \<open>grp\<close> is the object \<open>group\<close> points
  to (\<open>None\<close> when the pointer is nil); \<open>calls\<close> logs the calls of the tasks with the
  index of the caller; \<open>eg_err\<close> and \<open>ctx_cancelled\<close> are the error of the
  \<open>errgroup.Group\<close> and the state of the context derived with it; \<open>stored\<close> logs the
  arguments of \<open>storeGroup\<close>.
\<close>

record world =
  stdout :: "string list"
  stderr :: "stderr_line list"
  grp :: "group option"
  calls :: "(nat \<times> call) list"
  eg_err :: "error option"
  ctx_cancelled :: bool
  stored :: "group list"

text \<open>
  One step of task \<open>i\<close> on the shared state. The return of a task is the end of the
  function that \<open>Go\<close> of the library type \<open>errgroup.Group\<close> wraps: a non-nil error
  is kept if it is the first, and then the context made by \<open>errgroup.WithContext\<close> is
  cancelled.
\<close>

fun effect :: "nat \<times> step \<Rightarrow> world \<Rightarrow> world" where
  "effect (i, Do (Call c)) w = w\<lparr>calls := calls w @ [(i, c)]\<rparr>"
| "effect (i, Do (Stderr l)) w = w\<lparr>stderr := stderr w @ [l]\<rparr>"
| "effect (i, Do (Stdout s)) w = w\<lparr>stdout := stdout w @ [s]\<rparr>"
| "effect (i, Do (Append inst)) w =
     w\<lparr>grp := map_option (\<lambda>g. g\<lparr>Instances := Instances g @ [inst]\<rparr>) (grp w)\<rparr>"
| "effect (i, Return None) w = w"
| "effect (i, Return (Some err)) w =
     (if eg_err w = None then w\<lparr>eg_err := Some err, ctx_cancelled := True\<rparr> else w)"

text \<open>\<open>eg.Wait()\<close> returns once each of the \<open>n\<close> tasks has returned.\<close>

definition returned :: "(nat \<times> step) list \<Rightarrow> nat list" where
  "returned h = map fst (filter (\<lambda>p. case snd p of Return r \<Rightarrow> True | Do e \<Rightarrow> False) h)"

definition all_done :: "nat \<Rightarrow> (nat \<times> step) list \<Rightarrow> bool" where
  "all_done n h = list_all (\<lambda>i. i \<in> set (returned h)) [0..<n]"

subsection \<open>The function\<close>

text \<open>
  Lines 194 to 256: the contract \<open>Create(builderType, count, setup, group)\<close> of the
  specification, with \<open>tmpOutDir\<close> and \<open>group\<close> already chosen. \<open>Create_history\<close> is
  the run of the \<open>count\<close> tasks under a scheduler, \<open>Create\<close> the state it leaves and
  what the function returns; \<open>NoReturn\<close> when \<open>eg.Wait()\<close> has not returned by the
  end of the schedule. After \<open>Wait\<close> the context is cancelled in every case.
\<close>

definition world0 :: "group option \<Rightarrow> world" where
  "world0 g = \<lparr>stdout = [], stderr = [], grp = g, calls = [], eg_err = None,
               ctx_cancelled = False, stored = []\<rparr>"

definition Create_tasks :: "opts \<Rightarrow> env \<Rightarrow> string \<Rightarrow> group option \<Rightarrow> (event list \<times> error option outcome) list" where
  "Create_tasks a env tmpOutDir g =
     map (create_task a env tmpOutDir (g \<noteq> None)) [0..<nat (opt_count a)]"

definition Create_history :: "opts \<Rightarrow> env \<Rightarrow> string \<Rightarrow> group option \<Rightarrow> nat list \<Rightarrow> (nat \<times> step) list" where
  "Create_history a env tmpOutDir g sched =
     interleave sched (map steps (Create_tasks a env tmpOutDir g))"

definition Create :: "opts \<Rightarrow> env \<Rightarrow> string \<Rightarrow> group option \<Rightarrow> nat list \<Rightarrow> world \<times> error option outcome" where
  "Create a env tmpOutDir g sched =
     (let h = Create_history a env tmpOutDir g sched;
          w = fold effect h (world0 g)
      in if \<not> all_done (nat (opt_count a)) h then (w, NoReturn)
         else
           (case eg_err w of
              Some err \<Rightarrow> (w\<lparr>ctx_cancelled := True\<rparr>, Returns (Some err))
            | None \<Rightarrow>
                (case grp w of
                   Some gp \<Rightarrow>
                     (w\<lparr>ctx_cancelled := True, stored := stored w @ [gp]\<rparr>,
                      Returns (storeGroup env gp))
                 | None \<Rightarrow> (w\<lparr>ctx_cancelled := True\<rparr>, Returns None))))"

text \<open>
  Lines 176 to 256: \<open>create\<close> after the command line is parsed. The temporary directory
  is made only for \<open>setup\<close>; the group is the active one unless \<open>new-group\<close> names one to
  create.
\<close>

definition create :: "opts \<Rightarrow> env \<Rightarrow> nat list \<Rightarrow> world \<times> error option outcome" where
  "create a env sched =
     (case (if opt_setup a then mkdirTemp env else Inr []) of
        Inl err \<Rightarrow>
          (world0 (activeGroup env),
           Returns (Some (''failed to create a temporary directory for setup output: '' @ err)))
      | Inr tmpOutDir \<Rightarrow>
          (if opt_newGroup a \<noteq> [] then
             (case doCreateGroup env (opt_newGroup a) of
                Inl err \<Rightarrow> (world0 (activeGroup env), Returns (Some err))
              | Inr gp \<Rightarrow> Create a env tmpOutDir (Some gp) sched)
           else Create a env tmpOutDir (activeGroup env) sched))"

subsection \<open>Vocabulary of the properties\<close>

text \<open>
  Read off a run: the error of the first task that returned one, the instance IDs
  appended to the group, and the lines printed on standard output, in the order of the
  run.
\<close>

fun first_error :: "(nat \<times> step) list \<Rightarrow> error option" where
  "first_error [] = None"
| "first_error ((i, Return (Some err)) # h) = Some err"
| "first_error (p # h) = first_error h"

fun appends :: "step list \<Rightarrow> string list" where
  "appends [] = []"
| "appends (Do (Append inst) # ss) = inst # appends ss"
| "appends (s # ss) = appends ss"

fun prints :: "step list \<Rightarrow> string list" where
  "prints [] = []"
| "prints (Do (Stdout inst) # ss) = inst # prints ss"
| "prints (s # ss) = prints ss"

fun calls_of :: "event list \<Rightarrow> call list" where
  "calls_of [] = []"
| "calls_of (Call c # evs) = c # calls_of evs"
| "calls_of (e # evs) = calls_of evs"

text \<open>
  The instance ID task \<open>i\<close> holds in \<open>inst\<close> when it leaves its loop through
  \<open>break updateLoop\<close>; \<open>None\<close> when it does not leave the loop that way.
\<close>

definition created :: "opts \<Rightarrow> env \<Rightarrow> nat \<Rightarrow> string option" where
  "created a env i =
     (case createInstance env i (opt_builderType a) of
        Inl err \<Rightarrow> None
      | Inr stream \<Rightarrow>
          (case snd (updateLoop a env i stream []) of
             Break inst \<Rightarrow> Some inst
           | Failed e \<Rightarrow> None
           | Blocked \<Rightarrow> None))"

text \<open>A scheduler that gives each of the tasks at least as many turns as it has steps.\<close>

definition fair :: "nat list \<Rightarrow> step list list \<Rightarrow> bool" where
  "fair sched ts = list_all (\<lambda>i. length (ts ! i) \<le> count_list sched i) [0..<length ts]"

text \<open>The calls of the setup of an instance: GOROOT resolution, push and run.\<close>

fun setup_call :: "call \<Rightarrow> bool" where
  "setup_call GetGOROOT = True"
| "setup_call (DoPush inst goroot dryRun detailed) = True"
| "setup_call (DoRun inst dir cmd args detailed) = True"
| "setup_call c = False"

text \<open>
  The value of \<open>inst\<close> after a loop that started with \<open>inst\<close> has consumed the updates
  \<open>us\<close>: the ID of the last of them whose status is \<open>COMPLETE\<close>.
\<close>

definition last_complete :: "string \<Rightarrow> CreateInstanceResponse list \<Rightarrow> string" where
  "last_complete inst us =
     (case filter (\<lambda>u. Status u = COMPLETE) us of
        [] \<Rightarrow> inst
      | c # cs \<Rightarrow> GomoteId (last (c # cs)))"

text \<open>The build script the setup runs for a builder type.\<close>

definition make_script :: "string \<Rightarrow> string" where
  "make_script bt =
     (if strings_Contains bt ''windows'' then ''go/src/make.bat'' else ''go/src/make.bash'')"

subsection \<open>Example runs\<close>

text \<open>
  Inputs at which the theorems below are instantiated. \<open>env_two\<close> answers task 0 with a
  pending update, a complete one and the end of the stream, and task 1 with a complete
  update and the end of the stream; every other collaborator succeeds.
\<close>

definition opts_two :: opts where
  "opts_two = \<lparr>opt_status = True, opt_count = 2, opt_setup = False, opt_newGroup = [],
               opt_builderType = ''linux-amd64''\<rparr>"

definition env_two :: env where
  "env_two =
     \<lparr>mkdirTemp = Inr ''/tmp/gomote1'',
      activeGroup = None,
      doCreateGroup = (\<lambda>name. Inr \<lparr>GroupName = name, Instances = []\<rparr>),
      statusFromError = (\<lambda>err. err),
      createInstance = (\<lambda>i bt.
         if i = 0 then
           Inr [Update \<lparr>Status = PENDING, WaitersAhead = 3, GomoteId = []\<rparr>,
                Update \<lparr>Status = COMPLETE, WaitersAhead = 0, GomoteId = ''gomote-a''\<rparr>, EOF]
         else
           Inr [Update \<lparr>Status = COMPLETE, WaitersAhead = 0, GomoteId = ''gomote-b''\<rparr>, EOF]),
      getGOROOT = (\<lambda>i. Inr ''/usr/lib/go''),
      doPush = (\<lambda>i inst goroot dryRun detailed. None),
      doRun = (\<lambda>i inst dir cmd args detailed. None),
      storeGroup = (\<lambda>g. None)\<rparr>"

definition group_G :: group where
  "group_G = \<lparr>GroupName = ''G'', Instances = []\<rparr>"

text \<open>A scheduler that lets task 1 finish before task 0 prints.\<close>

definition sched_two :: "nat list" where
  "sched_two = [0, 1, 0, 1, 1, 0, 1, 0, 1, 0, 0, 1, 0, 0]"

text \<open>
  The second request's stream yields an RPC error; the scheduler lets the first task
  finish before the second starts.
\<close>

definition env_err :: env where
  "env_err = env_two\<lparr>createInstance := (\<lambda>i bt.
     if i = 0 then
       Inr [Update \<lparr>Status = COMPLETE, WaitersAhead = 0, GomoteId = ''gomote-a''\<rparr>, EOF]
     else Inr [RecvErr ''unavailable''])\<rparr>"

definition sched_seq :: "nat list" where
  "sched_seq = [0, 0, 0, 0, 0, 0, 1, 1, 1]"

text \<open>Both requests fail, the second at \<open>CreateInstance\<close>; the second task returns first.\<close>

definition env_both_err :: env where
  "env_both_err = env_two\<lparr>createInstance := (\<lambda>i bt.
     if i = 0 then
       Inr [Update \<lparr>Status = PENDING, WaitersAhead = 1, GomoteId = []\<rparr>,
            RecvErr ''deadline exceeded'']
     else Inl ''unavailable'')\<rparr>"

definition sched_rev :: "nat list" where
  "sched_rev = [1, 0, 1, 0, 0, 0, 0, 0]"

text \<open>Every request succeeds and \<open>storeGroup\<close> fails.\<close>

definition env_store_err :: env where
  "env_store_err = env_two\<lparr>storeGroup := (\<lambda>g. Some ''permission denied'')\<rparr>"

text \<open>One Windows instance with setup, and a service that refuses every request.\<close>

definition opts_win :: opts where
  "opts_win = \<lparr>opt_status = True, opt_count = 1, opt_setup = True, opt_newGroup = [],
               opt_builderType = ''windows-amd64''\<rparr>"


definition sched_one :: "nat list" where
  "sched_one = [0, 0, 0, 0, 0, 0, 0, 0, 0, 0]"

text \<open>
  A stream that ends without a \<open>COMPLETE\<close> update, and a push that refuses the empty
  instance name.
\<close>

definition env_eof :: env where
  "env_eof = env_two\<lparr>
     createInstance := (\<lambda>i bt.
       Inr [Update \<lparr>Status = PENDING, WaitersAhead = 2, GomoteId = []\<rparr>, EOF]),
     doPush := (\<lambda>i inst goroot dryRun detailed.
       if inst = [] then Some ''no instance name'' else None)\<rparr>"

text \<open>A stream that goes on after its first \<open>COMPLETE\<close> update.\<close>

definition stream_two_complete :: "CreateInstanceResponse list" where
  "stream_two_complete =
     [\<lparr>Status = COMPLETE, WaitersAhead = 0, GomoteId = ''gomote-a''\<rparr>,
      \<lparr>Status = PENDING, WaitersAhead = 1, GomoteId = []\<rparr>,
      \<lparr>Status = COMPLETE, WaitersAhead = 0, GomoteId = ''gomote-b''\<rparr>]"

text \<open>A group that already holds an instance, and a scheduler that alternates.\<close>

definition group_old :: group where
  "group_old = \<lparr>GroupName = ''G'', Instances = [''gomote-0'']\<rparr>"

definition sched_alt :: "nat list" where
  "sched_alt = [0, 1, 0, 1, 0, 1, 0, 1, 0, 1, 0, 1, 0, 1, 0, 1]"

section \<open>Runs of tasks\<close>

subsection \<open>The interleaving\<close>

text \<open>What a run holds of task \<open>i\<close> is a prefix of the steps of task \<open>i\<close>, in their order.\<close>

lemma interleave_project:
  "i < length ts \<Longrightarrow>
     map snd (filter (\<lambda>p. fst p = i) (interleave sched ts)) = take (count_list sched i) (ts ! i)"
proof (induction sched arbitrary: ts)
  case Nil
  then show ?case by simp
next
  case (Cons j sched)
  show ?case
  proof (cases "j < length ts")
    case False
    with Cons show ?thesis by auto
  next
    case True
    show ?thesis
    proof (cases "ts ! j")
      case Nil
      with True Cons show ?thesis by auto
    next
      case (Cons s rest)
      with True Cons.prems Cons.IH [of "ts[j := rest]"] show ?thesis
        by (auto simp: nth_list_update)
    qed
  qed
qed

lemma interleave_index: "p \<in> set (interleave sched ts) \<Longrightarrow> fst p < length ts"
proof (induction sched arbitrary: ts)
  case Nil
  then show ?case by simp
next
  case (Cons j sched)
  then show ?case
    by (fastforce split: if_splits list.splits)
qed

lemma interleave_step:
  assumes "(i, s) \<in> set (interleave sched ts)"
  shows "i < length ts \<and> s \<in> set (ts ! i)"
proof -
  from assms have i: "i < length ts"
    using interleave_index by fastforce
  from assms have "s \<in> set (map snd (filter (\<lambda>p. fst p = i) (interleave sched ts)))"
    by force
  with i have "s \<in> set (take (count_list sched i) (ts ! i))"
    by (simp add: interleave_project)
  with i show ?thesis
    by (blast dest: in_set_takeD)
qed

text \<open>A run splits into the parts of its tasks.\<close>

lemma mset_by_index:
  fixes n :: nat
  shows "\<forall>p \<in> set h. fst p < n \<Longrightarrow>
     mset (map snd h) = (\<Sum>i<n. mset (map snd (filter (\<lambda>p. fst p = i) h)))"
proof (induction h)
  case Nil
  then show ?case by simp
next
  case (Cons p h)
  then have lt: "fst p < n" by simp
  have "(\<Sum>i<n. mset (map snd (filter (\<lambda>q. fst q = i) (p # h)))) =
        (\<Sum>i<n. (if i = fst p then {#snd p#} else {#}) +
                mset (map snd (filter (\<lambda>q. fst q = i) h)))"
    by (rule sum.cong) auto
  also have "\<dots> = (\<Sum>i<n. (if i = fst p then {#snd p#} else {#})) +
                   (\<Sum>i<n. mset (map snd (filter (\<lambda>q. fst q = i) h)))"
    by (simp add: sum.distrib)
  also have "(\<Sum>i<n. (if i = fst p then {#snd p#} else {#})) = {#snd p#}"
    using lt by (simp add: sum.delta)
  finally show ?case using Cons by simp
qed

subsection \<open>The shared state after a run\<close>

lemma fold_effect_stored: "stored (fold effect h w) = stored w"
proof (induction h arbitrary: w)
  case Nil
  show ?case by simp
next
  case (Cons p h)
  obtain i s where p: "p = (i, s)" by (cases p)
  show ?case
  proof (cases s)
    case (Do e)
    with p Cons show ?thesis by (cases e) simp_all
  next
    case (Return r)
    with p Cons show ?thesis by (cases r) simp_all
  qed
qed

lemma fold_effect_grp:
  "grp (fold effect h w) =
     map_option (\<lambda>g. g\<lparr>Instances := Instances g @ appends (map snd h)\<rparr>) (grp w)"
proof (induction h arbitrary: w)
  case Nil
  show ?case by (cases "grp w") simp_all
next
  case (Cons p h)
  obtain i s where p: "p = (i, s)" by (cases p)
  show ?case
  proof (cases s)
    case (Do e)
    with p Cons show ?thesis
      by (cases e) (simp_all add: option.map_comp o_def)
  next
    case (Return r)
    with p Cons show ?thesis by (cases r) simp_all
  qed
qed

lemma fold_effect_stdout: "stdout (fold effect h w) = stdout w @ prints (map snd h)"
proof (induction h arbitrary: w)
  case Nil
  show ?case by simp
next
  case (Cons p h)
  obtain i s where p: "p = (i, s)" by (cases p)
  show ?case
  proof (cases s)
    case (Do e)
    with p Cons show ?thesis by (cases e) simp_all
  next
    case (Return r)
    with p Cons show ?thesis by (cases r) simp_all
  qed
qed

lemma fold_effect_calls:
  "set (calls (fold effect h w)) = set (calls w) \<union> {(i, c). (i, Do (Call c)) \<in> set h}"
proof (induction h arbitrary: w)
  case Nil
  show ?case by simp
next
  case (Cons p h)
  obtain i s where p: "p = (i, s)" by (cases p)
  show ?case
  proof (cases s)
    case (Do e)
    with p Cons show ?thesis by (cases e) auto
  next
    case (Return r)
    with p Cons show ?thesis by (cases r) auto
  qed
qed

lemma fold_effect_eg_err:
  "eg_err (fold effect h w) = (case eg_err w of Some e \<Rightarrow> Some e | None \<Rightarrow> first_error h)"
proof (induction h arbitrary: w)
  case Nil
  show ?case by (cases "eg_err w") simp_all
next
  case (Cons p h)
  obtain i s where p: "p = (i, s)" by (cases p)
  show ?case
  proof (cases s)
    case (Do e)
    with p Cons show ?thesis by (cases e) (simp_all split: option.splits)
  next
    case (Return r)
    with p Cons show ?thesis by (cases r) (simp_all split: option.splits)
  qed
qed

lemma first_error_None:
  "first_error h = None \<longleftrightarrow> (\<forall>i e. (i, Return (Some e)) \<notin> set h)"
proof (induction h rule: first_error.induct)
qed auto

lemma first_error_Some:
  "first_error h = Some e \<Longrightarrow> \<exists>i. (i, Return (Some e)) \<in> set h"
proof (induction h rule: first_error.induct)
qed auto

subsection \<open>Parts of a run, and its end\<close>

lemma appends_append: "appends (xs @ ys) = appends xs @ appends ys"
  by (induction xs rule: appends.induct) simp_all

lemma prints_append: "prints (xs @ ys) = prints xs @ prints ys"
  by (induction xs rule: prints.induct) simp_all

lemma calls_of_append: "calls_of (xs @ ys) = calls_of xs @ calls_of ys"
  by (induction xs rule: calls_of.induct) simp_all

lemma mset_appends_by_index:
  fixes n :: nat
  shows "\<forall>p \<in> set h. fst p < n \<Longrightarrow>
     mset (appends (map snd h)) =
       (\<Sum>i<n. mset (appends (map snd (filter (\<lambda>p. fst p = i) h))))"
proof (induction h)
  case Nil
  then show ?case by simp
next
  case (Cons p h)
  then have lt: "fst p < n" by simp
  have part: "appends (map snd (filter (\<lambda>q. fst q = i) (p # h))) =
      (if i = fst p then appends [snd p] else []) @
      appends (map snd (filter (\<lambda>q. fst q = i) h))" for i
    using appends_append [of "[snd p]" "map snd (filter (\<lambda>q. fst q = i) h)"] by auto
  have "(\<Sum>i<n. mset (appends (map snd (filter (\<lambda>q. fst q = i) (p # h))))) =
        (\<Sum>i<n. mset ((if i = fst p then appends [snd p] else []) @
                appends (map snd (filter (\<lambda>q. fst q = i) h))))"
    by (simp only: part)
  also have "\<dots> = (\<Sum>i<n. (if i = fst p then mset (appends [snd p]) else {#}) +
                mset (appends (map snd (filter (\<lambda>q. fst q = i) h))))"
    by (rule sum.cong) auto
  also have "\<dots> = (\<Sum>i<n. (if i = fst p then mset (appends [snd p]) else {#})) +
                   (\<Sum>i<n. mset (appends (map snd (filter (\<lambda>q. fst q = i) h))))"
    by (simp add: sum.distrib)
  also have "(\<Sum>i<n. (if i = fst p then mset (appends [snd p]) else {#})) = mset (appends [snd p])"
    using lt by (simp add: sum.delta)
  finally have "(\<Sum>i<n. mset (appends (map snd (filter (\<lambda>q. fst q = i) (p # h))))) =
      mset (appends [snd p]) + (\<Sum>i<n. mset (appends (map snd (filter (\<lambda>q. fst q = i) h))))" .
  moreover have "mset (appends (map snd (p # h))) =
      mset (appends [snd p]) + mset (appends (map snd h))"
    using appends_append [of "[snd p]" "map snd h"] by simp
  ultimately show ?case using Cons by simp
qed

lemma Return_in_steps: "Return r \<in> set (steps t) \<longleftrightarrow> snd t = Returns r"
  by (cases t rule: steps.cases) auto

lemma Return_in_take_steps:
  assumes "Return r \<in> set (take k (steps t))"
  shows "take k (steps t) = steps t \<and> snd t = Returns r"
proof -
  from assms have "Return r \<in> set (steps t)"
    by (rule in_set_takeD)
  then have r: "snd t = Returns r"
    by (simp add: Return_in_steps)
  then obtain evs where t: "t = (evs, Returns r)"
    by (cases t) simp
  have "length evs < k"
  proof (rule ccontr)
    assume "\<not> length evs < k"
    with assms t have "Return r \<in> set (take k (map Do evs))"
      by simp
    then have "Return r \<in> set (map Do evs)"
      by (rule in_set_takeD)
    then show False by auto
  qed
  with t r show ?thesis by simp
qed

lemma all_done_iff: "all_done n h \<longleftrightarrow> (\<forall>i<n. \<exists>r. (i, Return r) \<in> set h)"
proof -
  have "i \<in> set (returned h) \<longleftrightarrow> (\<exists>r. (i, Return r) \<in> set h)" for i
  proof
    assume "i \<in> set (returned h)"
    then obtain s where "(i, s) \<in> set h" "case s of Return r \<Rightarrow> True | Do e \<Rightarrow> False"
      by (auto simp: returned_def)
    then show "\<exists>r. (i, Return r) \<in> set h"
      by (cases s) auto
  next
    assume "\<exists>r. (i, Return r) \<in> set h"
    then obtain r where "(i, Return r) \<in> set h" ..
    then show "i \<in> set (returned h)"
      by (force simp: returned_def)
  qed
  then show ?thesis
    by (auto simp: all_done_def list_all_iff)
qed

lemma all_done_whole:
  assumes "all_done (length ts) (interleave sched (map steps ts))" and "i < length ts"
  shows "map snd (filter (\<lambda>p. fst p = i) (interleave sched (map steps ts))) = steps (ts ! i)
         \<and> (\<exists>r. snd (ts ! i) = Returns r \<and> (i, Return r) \<in> set (interleave sched (map steps ts)))"
proof -
  let ?h = "interleave sched (map steps ts)"
  from assms obtain r where r: "(i, Return r) \<in> set ?h"
    by (auto simp: all_done_iff)
  then have "Return r \<in> set (map snd (filter (\<lambda>p. fst p = i) ?h))"
    by force
  with assms(2) have "Return r \<in> set (take (count_list sched i) (steps (ts ! i)))"
    by (simp add: interleave_project)
  then have "take (count_list sched i) (steps (ts ! i)) = steps (ts ! i) \<and> snd (ts ! i) = Returns r"
    by (rule Return_in_take_steps)
  with assms(2) r show ?thesis
    by (auto simp: interleave_project)
qed

lemma fair_all_done:
  assumes "fair sched (map steps ts)" and "\<forall>t \<in> set ts. snd t \<noteq> NoReturn"
  shows "all_done (length ts) (interleave sched (map steps ts))"
proof -
  let ?h = "interleave sched (map steps ts)"
  have "\<exists>r. (i, Return r) \<in> set ?h" if i: "i < length ts" for i
  proof -
    from assms(2) i obtain evs r where t: "ts ! i = (evs, Returns r)"
      by (metis nth_mem outcome.exhaust prod.collapse)
    from assms(1) i have "length (steps (ts ! i)) \<le> count_list sched i"
      by (simp add: fair_def list_all_iff)
    with i have "map snd (filter (\<lambda>p. fst p = i) ?h) = steps (ts ! i)"
      by (simp add: interleave_project)
    with t have "Return r \<in> set (map snd (filter (\<lambda>p. fst p = i) ?h))"
      by simp
    then show ?thesis by force
  qed
  then show ?thesis by (simp add: all_done_iff)
qed

section \<open>One task\<close>

lemma updateLoop_Update:
  "updateLoop a env i (Update u # rest) inst =
     (let pending = (Status u \<noteq> COMPLETE \<and> opt_status a);
          r = updateLoop a env i rest
                (if \<not> pending \<and> Status u = COMPLETE then GomoteId u else inst)
      in (Call Recv #
          (if pending then [Stderr (StillCreating (opt_builderType a) (i + 1) (WaitersAhead u))]
           else []) @ fst r,
          snd r))"
  by (simp split: prod.splits)

lemma updateLoop_no_append: "appends (map Do (fst (updateLoop a env i stream inst))) = []"
proof (induction stream arbitrary: inst)
  case Nil
  show ?case by simp
next
  case (Cons r stream)
  then show ?case
    by (cases r) (simp_all add: updateLoop_Update Let_def del: updateLoop.simps(4))
qed

lemma updateLoop_no_print: "prints (map Do (fst (updateLoop a env i stream inst))) = []"
proof (induction stream arbitrary: inst)
  case Nil
  show ?case by simp
next
  case (Cons r stream)
  then show ?case
    by (cases r) (simp_all add: updateLoop_Update Let_def del: updateLoop.simps(4))
qed

lemma task_setup_no_append: "appends (map Do (fst (task_setup a env out i inst))) = []"
  by (simp add: task_setup_def Let_def appends_append split: sum.splits option.splits)

lemma task_setup_no_print: "prints (map Do (fst (task_setup a env out i inst))) = []"
  by (simp add: task_setup_def Let_def prints_append split: sum.splits option.splits)

lemma task_setup_returns: "snd (task_setup a env out i inst) \<noteq> NoReturn"
  by (simp add: task_setup_def Let_def split: sum.splits option.splits)

lemma appends_steps: "appends (steps t) = appends (map Do (fst t))"
  by (cases t rule: steps.cases) (simp_all add: appends_append)

lemma prints_steps: "prints (steps t) = prints (map Do (fst t))"
  by (cases t rule: steps.cases) (simp_all add: prints_append)

lemma create_task_appends:
  "appends (steps (create_task a env out hg i)) =
     (if hg then (case created a env i of Some inst \<Rightarrow> [inst] | None \<Rightarrow> []) else [])"
proof (cases "createInstance env i (opt_builderType a)")
  case (Inl err)
  then show ?thesis
    by (simp add: appends_steps create_task_def created_def)
next
  case (Inr stream)
  obtain evs x where l: "updateLoop a env i stream [] = (evs, x)"
    by (cases "updateLoop a env i stream []")
  have evs: "appends (map Do evs) = []"
    using updateLoop_no_append [of a env i stream "[]"] l by simp
  show ?thesis
  proof (cases x)
    case (Break inst)
    obtain evs' r where s: "task_setup a env out i inst = (evs', r)"
      by (cases "task_setup a env out i inst")
    have "appends (map Do evs') = []"
      using task_setup_no_append [of a env out i inst] s by simp
    with Inr l evs Break s show ?thesis
      by (simp add: appends_steps create_task_def created_def appends_append)
  next
    case (Failed e)
    with Inr l evs show ?thesis
      by (simp add: appends_steps create_task_def created_def appends_append)
  next
    case Blocked
    with Inr l evs show ?thesis
      by (simp add: appends_steps create_task_def created_def)
  qed
qed

lemma create_task_ok_created:
  "snd (create_task a env out hg i) = Returns None \<Longrightarrow> \<exists>inst. created a env i = Some inst"
  by (auto simp: create_task_def created_def split: sum.splits prod.splits loop_exit.splits)

lemma calls_of_iff: "c \<in> set (calls_of evs) \<longleftrightarrow> Call c \<in> set evs"
  by (induction evs rule: calls_of.induct) auto

lemma last_complete_Cons:
  "last_complete inst (u # us) =
     last_complete (if Status u = COMPLETE then GomoteId u else inst) us"
  by (simp add: last_complete_def split: list.splits)

lemma updateLoop_to_EOF:
  "snd (updateLoop a env i (map Update us @ EOF # rest) inst) = Break (last_complete inst us) \<and>
   calls_of (fst (updateLoop a env i (map Update us @ EOF # rest) inst)) =
     replicate (length us + 1) Recv"
proof (induction us arbitrary: inst)
  case Nil
  show ?case by (simp add: last_complete_def)
next
  case (Cons u us)
  show ?case
    using Cons [of "if Status u = COMPLETE then GomoteId u else inst"] Cons [of inst]
    by (auto simp: updateLoop_Update Let_def last_complete_Cons calls_of_append
          simp del: updateLoop.simps(4))
qed

lemma updateLoop_to_RecvErr:
  "snd (updateLoop a env i (map Update us @ RecvErr err # rest) inst) =
     Failed (''failed to create buildlet ('' @ itoa (i + 1) @ ''): '' @ statusFromError env err)"
proof (induction us arbitrary: inst)
  case Nil
  show ?case by simp
next
  case (Cons u us)
  then show ?case
    by (simp add: updateLoop_Update Let_def del: updateLoop.simps(4))
qed

lemma updateLoop_Break_only_EOF:
  "snd (updateLoop a env i stream inst) = Break x \<Longrightarrow>
     \<exists>us rest. stream = map Update us @ EOF # rest"
proof (induction stream arbitrary: inst)
  case Nil
  then show ?case by simp
next
  case (Cons r stream)
  show ?case
  proof (cases r)
    case (Update u)
    with Cons.prems obtain inst' where "snd (updateLoop a env i stream inst') = Break x"
      by (auto simp: updateLoop_Update Let_def simp del: updateLoop.simps(4))
    then obtain us rest where "stream = map Update us @ EOF # rest"
      using Cons.IH by blast
    with Update have "r # stream = map Update (u # us) @ EOF # rest"
      by simp
    then show ?thesis by blast
  next
    case EOF
    then have "r # stream = map Update [] @ EOF # stream" by simp
    then show ?thesis by blast
  next
    case (RecvErr err)
    with Cons.prems show ?thesis by simp
  qed
qed

lemma updateLoop_calls: "c \<in> set (calls_of (fst (updateLoop a env i stream inst))) \<Longrightarrow> c = Recv"
proof (induction stream arbitrary: inst)
  case Nil
  then show ?case by simp
next
  case (Cons r stream)
  then show ?case
    by (cases r)
       (auto simp: updateLoop_Update Let_def calls_of_append simp del: updateLoop.simps(4)
             split: if_splits)
qed

lemma create_task_unfold:
  "create_task a env out hg i =
     (case createInstance env i (opt_builderType a) of
        Inl err \<Rightarrow>
          ([Call (CreateInstance (opt_builderType a))],
           Returns (Some (''failed to create buildlet: '' @ statusFromError env err)))
      | Inr stream \<Rightarrow>
          (case snd (updateLoop a env i stream []) of
             Blocked \<Rightarrow>
               (Call (CreateInstance (opt_builderType a)) # fst (updateLoop a env i stream []),
                NoReturn)
           | Failed e \<Rightarrow>
               (Call (CreateInstance (opt_builderType a)) # fst (updateLoop a env i stream []),
                Returns (Some e))
           | Break inst \<Rightarrow>
               (Call (CreateInstance (opt_builderType a)) # fst (updateLoop a env i stream []) @
                [Stdout inst] @ (if hg then [Append inst] else []) @
                fst (task_setup a env out i inst),
                snd (task_setup a env out i inst))))"
  by (simp add: create_task_def split: sum.splits prod.splits loop_exit.splits)

lemma create_task_created:
  assumes "created a env i = Some inst"
  shows "\<exists>stream. createInstance env i (opt_builderType a) = Inr stream \<and>
           snd (updateLoop a env i stream []) = Break inst \<and>
           create_task a env out hg i =
             (Call (CreateInstance (opt_builderType a)) # fst (updateLoop a env i stream []) @
              [Stdout inst] @ (if hg then [Append inst] else []) @
              fst (task_setup a env out i inst),
              snd (task_setup a env out i inst))"
  using assms
  by (auto simp: created_def create_task_unfold split: sum.splits loop_exit.splits)

lemma create_task_not_created:
  assumes "created a env i = None"
  shows "set (calls_of (fst (create_task a env out hg i))) \<subseteq> {CreateInstance (opt_builderType a), Recv}
         \<and> snd (create_task a env out hg i) \<noteq> Returns None"
  using assms updateLoop_calls [of _ a env i _ "[]"]
  by (auto simp: created_def create_task_unfold split: sum.splits loop_exit.splits)

lemma create_task_prints:
  "prints (steps (create_task a env out hg i)) =
     (case created a env i of Some inst \<Rightarrow> [inst] | None \<Rightarrow> [])"
proof (cases "created a env i")
  case None
  then show ?thesis
    using updateLoop_no_print [of a env i _ "[]"]
    by (auto simp: prints_steps created_def create_task_unfold
          split: sum.splits loop_exit.splits)
next
  case (Some inst)
  from create_task_created [OF this, of out hg] show ?thesis
    using Some updateLoop_no_print [of a env i _ "[]"] task_setup_no_print [of a env out i inst]
    by (auto simp: prints_steps prints_append)
qed

lemma task_setup_calls:
  "calls_of (fst (task_setup a env out i inst)) =
     (if \<not> opt_setup a then []
      else case getGOROOT env i of
             Inl err \<Rightarrow> [GetGOROOT]
           | Inr goroot \<Rightarrow>
               (case doPush env i inst goroot False (opt_count a = 1) of
                  Some err \<Rightarrow> [GetGOROOT, DoPush inst goroot False (opt_count a = 1)]
                | None \<Rightarrow>
                    [GetGOROOT, DoPush inst goroot False (opt_count a = 1),
                     DoRun inst out (make_script (opt_builderType a)) [] (opt_count a = 1)]))"
  by (simp add: task_setup_def Let_def calls_of_append make_script_def
        split: sum.splits option.splits)

text \<open>
  The two places where a task meets an RPC error: an error of \<open>CreateInstance\<close> is
  returned with the translated status alone, an error of \<open>Recv\<close> with the index of
  the task, counted from 1, before it.
\<close>

lemma create_task_rpc_errors:
  "(createInstance env i (opt_builderType a) = Inl err \<longrightarrow>
      snd (create_task a env out hg i) =
        Returns (Some (''failed to create buildlet: '' @ statusFromError env err))) \<and>
   (createInstance env i (opt_builderType a) = Inr (map Update us @ RecvErr err # rest) \<longrightarrow>
      snd (create_task a env out hg i) =
        Returns (Some (''failed to create buildlet ('' @ itoa (i + 1) @ ''): '' @
                       statusFromError env err)))"
  using updateLoop_to_RecvErr [of a env i us err rest "[]"]
  by (auto simp: create_task_unfold)

section \<open>The function \<open>Create\<close>\<close>

lemma length_Create_tasks: "length (Create_tasks a env out g) = nat (opt_count a)"
  by (simp add: Create_tasks_def)

lemma nth_Create_tasks:
  "i < nat (opt_count a) \<Longrightarrow> Create_tasks a env out g ! i = create_task a env out (g \<noteq> None) i"
  by (simp add: Create_tasks_def)

lemma Create_history_index:
  "p \<in> set (Create_history a env out g sched) \<Longrightarrow> fst p < nat (opt_count a)"
  using interleave_index [of p sched "map steps (Create_tasks a env out g)"]
  by (simp add: Create_history_def length_Create_tasks)

lemma Create_Returns_all_done:
  "snd (Create a env out g sched) = Returns r \<Longrightarrow>
     all_done (nat (opt_count a)) (Create_history a env out g sched)"
  by (simp add: Create_def Let_def split: if_splits)

lemma Create_grp:
  "grp (fst (Create a env out g sched)) =
     map_option (\<lambda>gp. gp\<lparr>Instances := Instances gp @
        appends (map snd (Create_history a env out g sched))\<rparr>) g"
  by (simp add: Create_def Let_def fold_effect_grp world0_def split: option.splits)

lemma Create_whole:
  assumes "all_done (nat (opt_count a)) (Create_history a env out g sched)"
    and "i < nat (opt_count a)"
  shows "map snd (filter (\<lambda>p. fst p = i) (Create_history a env out g sched)) =
           steps (create_task a env out (g \<noteq> None) i)"
    and "\<exists>r. snd (create_task a env out (g \<noteq> None) i) = Returns r \<and>
           (i, Return r) \<in> set (Create_history a env out g sched)"
  using all_done_whole [of "Create_tasks a env out g" sched i] assms
  by (simp_all add: Create_history_def length_Create_tasks nth_Create_tasks)

lemma mset_map_filter_upt:
  "mset (List.map_filter f [0..<n]) = (\<Sum>i<n. mset (case f i of Some x \<Rightarrow> [x] | None \<Rightarrow> []))"
  by (induction n) (simp_all add: List.map_filter_def split: option.splits)

lemma length_map_filter_all:
  "\<forall>x \<in> set xs. f x \<noteq> None \<Longrightarrow> length (List.map_filter f xs) = length xs"
  by (induction xs) (auto simp: List.map_filter_def)

lemma Create_appends:
  assumes "all_done (nat (opt_count a)) (Create_history a env out (Some g) sched)"
  shows "mset (appends (map snd (Create_history a env out (Some g) sched))) =
           mset (List.map_filter (created a env) [0..<nat (opt_count a)])"
proof -
  let ?n = "nat (opt_count a)"
  let ?h = "Create_history a env out (Some g) sched"
  have "\<forall>p \<in> set ?h. fst p < ?n"
    by (blast dest: Create_history_index)
  then have "mset (appends (map snd ?h)) =
      (\<Sum>i<?n. mset (appends (map snd (filter (\<lambda>p. fst p = i) ?h))))"
    by (rule mset_appends_by_index)
  also have "\<dots> = (\<Sum>i<?n. mset (case created a env i of Some inst \<Rightarrow> [inst] | None \<Rightarrow> []))"
  proof (rule sum.cong)
    fix i assume "i \<in> {..<?n}"
    then have "i < ?n" by simp
    with assms have "map snd (filter (\<lambda>p. fst p = i) ?h) = steps (create_task a env out True i)"
      using Create_whole(1) [of a env out "Some g" sched i] by simp
    then show "mset (appends (map snd (filter (\<lambda>p. fst p = i) ?h))) =
        mset (case created a env i of Some inst \<Rightarrow> [inst] | None \<Rightarrow> [])"
      by (simp add: create_task_appends)
  qed simp
  finally show ?thesis
    by (simp add: mset_map_filter_upt)
qed

lemma Create_eg_err:
  "eg_err (fst (Create a env out g sched)) = first_error (Create_history a env out g sched)"
  by (simp add: Create_def Let_def fold_effect_eg_err world0_def split: option.splits)

lemma Create_history_Return:
  assumes "(i, Return r) \<in> set (Create_history a env out g sched)"
  shows "i < nat (opt_count a) \<and> snd (create_task a env out (g \<noteq> None) i) = Returns r"
proof -
  from assms have i: "i < nat (opt_count a)"
    using Create_history_index by fastforce
  from assms have "Return r \<in> set (map steps (Create_tasks a env out g) ! i)"
    unfolding Create_history_def by (blast dest: interleave_step)
  with i show ?thesis
    by (simp add: length_Create_tasks nth_Create_tasks Return_in_steps)
qed

lemma first_error_task:
  assumes "first_error (Create_history a env out g sched) = Some e"
  shows "\<exists>i < nat (opt_count a). snd (create_task a env out (g \<noteq> None) i) = Returns (Some e)"
  using first_error_Some [OF assms] Create_history_Return by blast

lemma all_done_first_error_None:
  assumes "all_done (nat (opt_count a)) (Create_history a env out g sched)"
  shows "first_error (Create_history a env out g sched) = None \<longleftrightarrow>
           (\<forall>i < nat (opt_count a). snd (create_task a env out (g \<noteq> None) i) = Returns None)"
proof
  assume none: "first_error (Create_history a env out g sched) = None"
  show "\<forall>i < nat (opt_count a). snd (create_task a env out (g \<noteq> None) i) = Returns None"
  proof (intro allI impI)
    fix i assume "i < nat (opt_count a)"
    with assms obtain r where r: "snd (create_task a env out (g \<noteq> None) i) = Returns r"
      "(i, Return r) \<in> set (Create_history a env out g sched)"
      using Create_whole(2) by blast
    from none r(2) have "r = None"
      by (cases r) (auto simp: first_error_None)
    with r(1) show "snd (create_task a env out (g \<noteq> None) i) = Returns None"
      by simp
  qed
next
  assume ok: "\<forall>i < nat (opt_count a). snd (create_task a env out (g \<noteq> None) i) = Returns None"
  show "first_error (Create_history a env out g sched) = None"
  proof (rule ccontr)
    assume "first_error (Create_history a env out g sched) \<noteq> None"
    then obtain e where "first_error (Create_history a env out g sched) = Some e"
      by blast
    then obtain i where "i < nat (opt_count a)"
      "snd (create_task a env out (g \<noteq> None) i) = Returns (Some e)"
      using first_error_task by blast
    with ok show False by simp
  qed
qed

lemma Create_result:
  "snd (Create a env out g sched) =
     (if \<not> all_done (nat (opt_count a)) (Create_history a env out g sched) then NoReturn
      else case first_error (Create_history a env out g sched) of
             Some err \<Rightarrow> Returns (Some err)
           | None \<Rightarrow>
               (case grp (fst (Create a env out g sched)) of
                  Some gp \<Rightarrow> Returns (storeGroup env gp)
                | None \<Rightarrow> Returns None))"
  by (simp add: Create_def Let_def fold_effect_eg_err world0_def split: option.splits)

lemma Create_stored:
  "stored (fst (Create a env out g sched)) =
     (if \<not> all_done (nat (opt_count a)) (Create_history a env out g sched) then []
      else case first_error (Create_history a env out g sched) of
             Some err \<Rightarrow> []
           | None \<Rightarrow>
               (case grp (fst (Create a env out g sched)) of
                  Some gp \<Rightarrow> [gp]
                | None \<Rightarrow> []))"
  by (simp add: Create_def Let_def fold_effect_eg_err fold_effect_stored world0_def
        split: option.splits)

lemma Create_grp_None: "grp (fst (Create a env out g sched)) = None \<longleftrightarrow> g = None"
  by (simp add: Create_grp)

lemma Create_returns:
  assumes "fair sched (map steps (Create_tasks a env out g))"
    and "\<forall>i < nat (opt_count a). snd (create_task a env out (g \<noteq> None) i) \<noteq> NoReturn"
  shows "\<exists>r. snd (Create a env out g sched) = Returns r"
proof -
  from assms(2) have "\<forall>t \<in> set (Create_tasks a env out g). snd t \<noteq> NoReturn"
    by (auto simp: Create_tasks_def)
  with assms(1) have "all_done (length (Create_tasks a env out g))
      (interleave sched (map steps (Create_tasks a env out g)))"
    by (rule fair_all_done)
  then have "all_done (nat (opt_count a)) (Create_history a env out g sched)"
    by (simp add: Create_history_def length_Create_tasks)
  then show ?thesis
    by (simp add: Create_result split: option.splits)
qed

text \<open>
  The function \<open>create\<close> either fails before any task starts, with the error of
  \<open>os.MkdirTemp\<close> or of \<open>doCreateGroup\<close>, or is \<open>Create\<close> for the directory and the
  group it has chosen.
\<close>

lemma create_cases:
  "(\<exists>err. opt_setup a \<and> mkdirTemp env = Inl err \<and>
      create a env sched =
        (world0 (activeGroup env),
         Returns (Some (''failed to create a temporary directory for setup output: '' @ err)))) \<or>
   (\<exists>err. opt_newGroup a \<noteq> [] \<and> doCreateGroup env (opt_newGroup a) = Inl err \<and>
      create a env sched = (world0 (activeGroup env), Returns (Some err))) \<or>
   (\<exists>out g. create a env sched = Create a env out g sched \<and>
      (if opt_setup a then mkdirTemp env = Inr out else out = []) \<and>
      (if opt_newGroup a \<noteq> [] then \<exists>gp. doCreateGroup env (opt_newGroup a) = Inr gp \<and> g = Some gp
       else g = activeGroup env))"
  by (cases "mkdirTemp env"; cases "doCreateGroup env (opt_newGroup a)")
     (simp_all add: create_def)

subsection \<open>The calls of a run\<close>

lemma Do_in_steps: "Do e \<in> set (steps t) \<longleftrightarrow> e \<in> set (fst t)"
  by (cases t rule: steps.cases) auto

lemma Create_calls:
  assumes "(i, c) \<in> set (calls (fst (Create a env out g sched)))"
  shows "i < nat (opt_count a) \<and> c \<in> set (calls_of (fst (create_task a env out (g \<noteq> None) i)))"
proof -
  have "calls (fst (Create a env out g sched)) =
      calls (fold effect (Create_history a env out g sched) (world0 g))"
    by (simp add: Create_def Let_def split: option.splits)
  with assms have h: "(i, Do (Call c)) \<in> set (Create_history a env out g sched)"
    by (simp add: fold_effect_calls world0_def)
  then have i: "i < nat (opt_count a)"
    using Create_history_index by fastforce
  from h have "Do (Call c) \<in> set (map steps (Create_tasks a env out g) ! i)"
    unfolding Create_history_def by (blast dest: interleave_step)
  with i show ?thesis
    by (simp add: length_Create_tasks nth_Create_tasks Do_in_steps calls_of_iff)
qed

lemma task_setup_all_setup_calls:
  "filter setup_call (calls_of (fst (task_setup a env out i inst))) =
     calls_of (fst (task_setup a env out i inst))"
  by (simp add: task_setup_calls split: sum.splits option.splits)

lemma updateLoop_no_setup_calls:
  "filter setup_call (calls_of (fst (updateLoop a env i stream inst))) = []"
  using updateLoop_calls [of _ a env i stream inst]
  by (fastforce simp: filter_empty_conv)

lemma create_task_setup_calls:
  "filter setup_call (calls_of (fst (create_task a env out hg i))) =
     (case created a env i of
        None \<Rightarrow> []
      | Some inst \<Rightarrow> calls_of (fst (task_setup a env out i inst)))"
proof (cases "created a env i")
  case None
  from create_task_not_created [OF this, of out hg] None show ?thesis
    by (auto simp: filter_empty_conv)
next
  case (Some inst)
  from create_task_created [OF this, of out hg] Some show ?thesis
    by (auto simp: calls_of_append updateLoop_no_setup_calls task_setup_all_setup_calls)
qed

lemma setup_call_in_task:
  "setup_call c \<Longrightarrow>
     c \<in> set (calls_of (fst (create_task a env out hg i))) \<longleftrightarrow>
     (\<exists>inst. created a env i = Some inst \<and> c \<in> set (calls_of (fst (task_setup a env out i inst))))"
proof -
  assume c: "setup_call c"
  then have "c \<in> set (calls_of (fst (create_task a env out hg i))) \<longleftrightarrow>
      c \<in> set (filter setup_call (calls_of (fst (create_task a env out hg i))))"
    by simp
  then show ?thesis
    by (cases "created a env i") (simp_all add: create_task_setup_calls)
qed



lemma task_setup_DoRun:
  "DoRun x dir cmd args det \<in> set (calls_of (fst (task_setup a env out i inst))) \<longleftrightarrow>
     opt_setup a \<and>
     (\<exists>goroot. getGOROOT env i = Inr goroot \<and>
        doPush env i inst goroot False (opt_count a = 1) = None) \<and>
     x = inst \<and> dir = out \<and> cmd = make_script (opt_builderType a) \<and> args = [] \<and>
     det = (opt_count a = 1)"
  by (cases "getGOROOT env i"; cases "doPush env i inst (projr (getGOROOT env i)) False (opt_count a = 1)")
     (auto simp: task_setup_calls)

text \<open>
  C1. \<open>storeGroup\<close> is called exactly when \<open>eg.Wait()\<close> has returned, the group
  is non-nil and every task returned nil; it is then called once, on the group with every
  appended instance ID, and \<open>Create\<close> returns its result. When a task has returned an
  error, \<open>Create\<close> returns an error and \<open>storeGroup\<close> is not called: line 249
  returns before line 252 is reached.
\<close>

theorem Create_stores_iff:
  "(stored (fst (Create a env out g sched)) \<noteq> [] \<longleftrightarrow>
      (\<exists>r. snd (Create a env out g sched) = Returns r) \<and> g \<noteq> None \<and>
      (\<forall>i < nat (opt_count a). snd (create_task a env out (g \<noteq> None) i) = Returns None)) \<and>
   (stored (fst (Create a env out g sched)) \<noteq> [] \<longrightarrow>
      (\<exists>gp. grp (fst (Create a env out g sched)) = Some gp \<and>
            stored (fst (Create a env out g sched)) = [gp] \<and>
            snd (Create a env out g sched) = Returns (storeGroup env gp))) \<and>
   (\<forall>i e. i < nat (opt_count a) \<and>
          snd (create_task a env out (g \<noteq> None) i) = Returns (Some e) \<longrightarrow>
          stored (fst (Create a env out g sched)) = [] \<and>
          snd (Create a env out g sched) \<noteq> Returns None)"
proof -
  let ?h = "Create_history a env out g sched"
  let ?n = "nat (opt_count a)"
  let ?C = "Create a env out g sched"
  let ?ok = "\<forall>i < ?n. snd (create_task a env out (g \<noteq> None) i) = Returns None"
  show ?thesis
  proof (cases "all_done ?n ?h")
    case False
    then have "snd ?C = NoReturn" "stored (fst ?C) = []"
      by (simp_all add: Create_result Create_stored)
    then show ?thesis by simp
  next
    case True
    then have ok: "first_error ?h = None \<longleftrightarrow> ?ok"
      by (rule all_done_first_error_None)
    show ?thesis
    proof (cases "first_error ?h")
      case (Some err)
      with True have "snd ?C = Returns (Some err)" "stored (fst ?C) = []"
        by (simp_all add: Create_result Create_stored)
      moreover from Some ok have "\<not> ?ok" by simp
      ultimately show ?thesis by simp
    next
      case None
      with ok have all: ?ok by simp
      show ?thesis
      proof (cases g)
        case gNone: None
        then have "grp (fst ?C) = None"
          by (simp add: Create_grp_None)
        with True None have "stored (fst ?C) = []"
          by (simp add: Create_stored)
        with gNone all show ?thesis by fastforce
      next
        case (Some g0)
        then obtain gp where gp: "grp (fst ?C) = Some gp"
          using Create_grp_None [of a env out g sched] by (cases "grp (fst ?C)") auto
        with True None have "stored (fst ?C) = [gp]" "snd ?C = Returns (storeGroup env gp)"
          by (simp_all add: Create_result Create_stored)
        with Some all gp show ?thesis by auto
      qed
    qed
  qed
qed

theorem Create_stores_iff_witness:
  "snd (Create opts_two env_two [] (Some group_G) sched_two) = Returns None \<and>
   snd (create_task opts_two env_two [] True 0) = Returns None \<and>
   snd (create_task opts_two env_two [] True 1) = Returns None \<and>
   stored (fst (Create opts_two env_two [] (Some group_G) sched_two)) =
     [\<lparr>GroupName = ''G'', Instances = [''gomote-b'', ''gomote-a'']\<rparr>]"
proof -
  let ?C = "Create opts_two env_two [] (Some group_G) sched_two"
  have r: "snd ?C = Returns None"
    by code_simp
  have t0: "snd (create_task opts_two env_two [] True 0) = Returns None"
    by code_simp
  have t1: "snd (create_task opts_two env_two [] True 1) = Returns None"
    by code_simp
  have n: "nat (opt_count opts_two) = 2"
    by (simp add: opts_two_def)
  have all: "\<forall>i < nat (opt_count opts_two).
      snd (create_task opts_two env_two [] (Some group_G \<noteq> None) i) = Returns None"
    unfolding n using t0 t1 by (auto simp: less_2_cases_iff)
  have g: "grp (fst ?C) = Some \<lparr>GroupName = ''G'', Instances = [''gomote-b'', ''gomote-a'']\<rparr>"
    by code_simp
  from Create_stores_iff [of opts_two env_two "[]" "Some group_G" sched_two] r all
  have "stored (fst ?C) \<noteq> []"
    by blast
  with Create_stores_iff [of opts_two env_two "[]" "Some group_G" sched_two]
  obtain gp where "grp (fst ?C) = Some gp" "stored (fst ?C) = [gp]"
    by blast
  with g have "stored (fst ?C) = [\<lparr>GroupName = ''G'', Instances = [''gomote-b'', ''gomote-a'']\<rparr>]"
    by simp
  with r t0 t1 show ?thesis by simp
qed

text \<open>
  The scenario of section 8 with two tasks and a group: the first task succeeds and its
  ID is appended to the group in memory, the stream of the second then yields an RPC
  error. \<open>Create\<close> returns that error, and \<open>storeGroup\<close> has not been called.
\<close>

theorem Create_error_skips_store:
  "snd (create_task opts_two env_err [] True 0) = Returns None \<and>
   snd (Create opts_two env_err [] (Some group_G) sched_seq) =
     Returns (Some ''failed to create buildlet (2): unavailable'') \<and>
   grp (fst (Create opts_two env_err [] (Some group_G) sched_seq)) =
     Some \<lparr>GroupName = ''G'', Instances = [''gomote-a'']\<rparr> \<and>
   stored (fst (Create opts_two env_err [] (Some group_G) sched_seq)) = []"
  by code_simp

text \<open>
  C2. Under a scheduler that gives every task its turns, \<open>Create\<close> returns when every
  task returns. When it returns, every task has returned before; it returns nil exactly
  when every task returned nil and, for a non-nil group, \<open>storeGroup\<close> returned nil as
  well; and when some task returned an error, it returns the error of the task that
  returned one first in the run, whatever the other tasks returned later.
\<close>

theorem Create_returns_first_error:
  "(fair sched (map steps (Create_tasks a env out g)) \<and>
    (\<forall>i < nat (opt_count a). snd (create_task a env out (g \<noteq> None) i) \<noteq> NoReturn) \<longrightarrow>
      (\<exists>r. snd (Create a env out g sched) = Returns r)) \<and>
   (\<forall>r. snd (Create a env out g sched) = Returns r \<longrightarrow>
      (\<forall>i < nat (opt_count a). \<exists>ri.
          snd (create_task a env out (g \<noteq> None) i) = Returns ri \<and>
          (i, Return ri) \<in> set (Create_history a env out g sched)) \<and>
      (r = None \<longleftrightarrow>
          (\<forall>i < nat (opt_count a). snd (create_task a env out (g \<noteq> None) i) = Returns None) \<and>
          (\<forall>gp. grp (fst (Create a env out g sched)) = Some gp \<longrightarrow> storeGroup env gp = None)) \<and>
      ((\<exists>i < nat (opt_count a). snd (create_task a env out (g \<noteq> None) i) \<noteq> Returns None) \<longrightarrow>
          (\<exists>e. first_error (Create_history a env out g sched) = Some e \<and> r = Some e)))"
proof (intro conjI allI impI)
  assume "fair sched (map steps (Create_tasks a env out g)) \<and>
    (\<forall>i < nat (opt_count a). snd (create_task a env out (g \<noteq> None) i) \<noteq> NoReturn)"
  then show "\<exists>r. snd (Create a env out g sched) = Returns r"
    using Create_returns by blast
next
  fix r i
  assume "snd (Create a env out g sched) = Returns r" and "i < nat (opt_count a)"
  then show "\<exists>ri. snd (create_task a env out (g \<noteq> None) i) = Returns ri \<and>
          (i, Return ri) \<in> set (Create_history a env out g sched)"
    using Create_whole(2) Create_Returns_all_done by blast
next
  fix r
  let ?h = "Create_history a env out g sched"
  let ?ok = "\<forall>i < nat (opt_count a). snd (create_task a env out (g \<noteq> None) i) = Returns None"
  assume r: "snd (Create a env out g sched) = Returns r"
  then have d: "all_done (nat (opt_count a)) ?h"
    by (rule Create_Returns_all_done)
  then have ok: "first_error ?h = None \<longleftrightarrow> ?ok"
    by (rule all_done_first_error_None)
  from r d show "r = None \<longleftrightarrow> ?ok \<and>
      (\<forall>gp. grp (fst (Create a env out g sched)) = Some gp \<longrightarrow> storeGroup env gp = None)"
    unfolding ok [symmetric] by (auto simp: Create_result split: option.splits)
next
  fix r
  let ?h = "Create_history a env out g sched"
  assume r: "snd (Create a env out g sched) = Returns r"
    and bad: "\<exists>i < nat (opt_count a). snd (create_task a env out (g \<noteq> None) i) \<noteq> Returns None"
  from r have d: "all_done (nat (opt_count a)) ?h"
    by (rule Create_Returns_all_done)
  with bad have "first_error ?h \<noteq> None"
    using all_done_first_error_None by blast
  then obtain e where e: "first_error ?h = Some e" by blast
  with r d have "r = Some e"
    by (simp add: Create_result)
  with e show "\<exists>e. first_error ?h = Some e \<and> r = Some e" by blast
qed

theorem Create_returns_first_error_witness:
  "fair sched_rev (map steps (Create_tasks opts_two env_both_err [] (Some group_G))) \<and>
   snd (create_task opts_two env_both_err [] True 0) =
     Returns (Some ''failed to create buildlet (1): deadline exceeded'') \<and>
   snd (create_task opts_two env_both_err [] True 1) =
     Returns (Some ''failed to create buildlet: unavailable'') \<and>
   first_error (Create_history opts_two env_both_err [] (Some group_G) sched_rev) =
     Some ''failed to create buildlet: unavailable'' \<and>
   snd (Create opts_two env_both_err [] (Some group_G) sched_rev) =
     Returns (Some ''failed to create buildlet: unavailable'')"
proof -
  let ?C = "Create opts_two env_both_err [] (Some group_G) sched_rev"
  let ?h = "Create_history opts_two env_both_err [] (Some group_G) sched_rev"
  have f: "fair sched_rev (map steps (Create_tasks opts_two env_both_err [] (Some group_G)))"
    by code_simp
  have t0: "snd (create_task opts_two env_both_err [] True 0) =
      Returns (Some ''failed to create buildlet (1): deadline exceeded'')"
    by code_simp
  have t1: "snd (create_task opts_two env_both_err [] True 1) =
      Returns (Some ''failed to create buildlet: unavailable'')"
    by code_simp
  have e: "first_error ?h = Some ''failed to create buildlet: unavailable''"
    by code_simp
  have n: "nat (opt_count opts_two) = 2"
    by (simp add: opts_two_def)
  have ret: "\<forall>i < nat (opt_count opts_two).
      snd (create_task opts_two env_both_err [] (Some group_G \<noteq> None) i) \<noteq> NoReturn"
    unfolding n using t0 t1 by (auto simp: less_2_cases_iff)
  have bad: "\<exists>i < nat (opt_count opts_two).
      snd (create_task opts_two env_both_err [] (Some group_G \<noteq> None) i) \<noteq> Returns None"
  proof (intro exI conjI)
    show "0 < nat (opt_count opts_two)" by (simp add: n)
    show "snd (create_task opts_two env_both_err [] (Some group_G \<noteq> None) 0) \<noteq> Returns None"
      using t0 by simp
  qed
  from Create_returns_first_error [of sched_rev opts_two env_both_err "[]" "Some group_G"] f ret
  obtain r where r: "snd ?C = Returns r"
    by blast
  with Create_returns_first_error [of sched_rev opts_two env_both_err "[]" "Some group_G"] bad
  obtain e' where "first_error ?h = Some e'" "r = Some e'"
    by blast
  with e r have "snd ?C = Returns (Some ''failed to create buildlet: unavailable'')"
    by simp
  with f t0 t1 e show ?thesis by simp
qed

text \<open>
  The tasks alone do not decide the result: here both return nil, and \<open>Create\<close>
  returns the error of \<open>storeGroup\<close>.
\<close>

theorem Create_store_error_returned:
  "snd (create_task opts_two env_store_err [] True 0) = Returns None \<and>
   snd (create_task opts_two env_store_err [] True 1) = Returns None \<and>
   snd (Create opts_two env_store_err [] (Some group_G) sched_two) =
     Returns (Some ''permission denied'')"
  by code_simp

text \<open>
  C3. A \<open>COMPLETE\<close> update makes the task record the instance ID it carries, and the
  loop goes on reading: it is left through \<open>break\<close> only when \<open>Recv\<close> returns the end
  of the stream, after one \<open>Recv\<close> for each update before it and one for the end, and
  \<open>inst\<close> then holds the ID of the last \<open>COMPLETE\<close> update received (its starting value
  when there was none).
\<close>

theorem updateLoop_reads_to_EOF:
  "snd (updateLoop a env i (map Update us @ EOF # rest) inst) = Break (last_complete inst us) \<and>
   calls_of (fst (updateLoop a env i (map Update us @ EOF # rest) inst)) =
     replicate (length us + 1) Recv \<and>
   (\<forall>stream x. snd (updateLoop a env i stream inst) = Break x \<longrightarrow>
      (\<exists>us' rest'. stream = map Update us' @ EOF # rest'))"
  using updateLoop_to_EOF [of a env i us rest inst] updateLoop_Break_only_EOF [of a env i _ inst]
  by blast

theorem updateLoop_reads_to_EOF_witness:
  "snd (updateLoop opts_two env_two 0 (map Update stream_two_complete @ EOF # []) []) =
     Break ''gomote-b'' \<and>
   calls_of (fst (updateLoop opts_two env_two 0 (map Update stream_two_complete @ EOF # []) [])) =
     [Recv, Recv, Recv, Recv]"
proof -
  have l: "last_complete [] stream_two_complete = ''gomote-b''"
    by (simp add: last_complete_def stream_two_complete_def)
  have n: "replicate (length stream_two_complete + 1) Recv = [Recv, Recv, Recv, Recv]"
    by (simp add: stream_two_complete_def)
  from updateLoop_reads_to_EOF [of opts_two env_two 0 stream_two_complete "[]" "[]"]
  show ?thesis
    unfolding l n by blast
qed

text \<open>
  A loop that, after its first \<open>COMPLETE\<close> update, calls \<open>Recv\<close> three more times,
  prints a progress line for the pending update among them, and ends with the ID of the
  second \<open>COMPLETE\<close> update; and a loop that calls \<open>Recv\<close> again after its
  \<open>COMPLETE\<close> update and returns the error it gets.
\<close>

theorem updateLoop_reads_on_after_COMPLETE:
  "updateLoop opts_two env_two 0
     [Update \<lparr>Status = COMPLETE, WaitersAhead = 0, GomoteId = ''gomote-a''\<rparr>,
      Update \<lparr>Status = PENDING, WaitersAhead = 1, GomoteId = []\<rparr>,
      Update \<lparr>Status = COMPLETE, WaitersAhead = 0, GomoteId = ''gomote-b''\<rparr>,
      EOF] [] =
   ([Call Recv, Call Recv, Stderr (StillCreating ''linux-amd64'' 1 1), Call Recv, Call Recv],
    Break ''gomote-b'') \<and>
   updateLoop opts_two env_two 0
     [Update \<lparr>Status = COMPLETE, WaitersAhead = 0, GomoteId = ''gomote-a''\<rparr>,
      RecvErr ''context canceled''] [] =
   ([Call Recv, Call Recv], Failed ''failed to create buildlet (1): context canceled'')"
  by code_simp

text \<open>
  C4. A stream that reaches its end without a \<open>COMPLETE\<close> update is no error for the
  task: the loop is left with the empty instance ID, which the task prints on standard
  output and, when a group is supplied, appends to the group. The task then returns what
  the rest of the function returns for the empty ID: nil when \<open>setup\<close> is false, and
  otherwise the result of GOROOT resolution, push and run.
\<close>

theorem create_task_EOF_without_COMPLETE:
  assumes "createInstance env i (opt_builderType a) = Inr (map Update us @ EOF # rest)"
    and "\<forall>u \<in> set us. Status u \<noteq> COMPLETE"
  shows "created a env i = Some [] \<and>
         prints (steps (create_task a env out hg i)) = [[]] \<and>
         appends (steps (create_task a env out hg i)) = (if hg then [[]] else []) \<and>
         snd (create_task a env out hg i) = snd (task_setup a env out i []) \<and>
         (\<not> opt_setup a \<longrightarrow> snd (create_task a env out hg i) = Returns None)"
proof -
  from assms(2) have "filter (\<lambda>u. Status u = COMPLETE) us = []"
    by (simp add: filter_empty_conv)
  then have "last_complete [] us = []"
    by (simp add: last_complete_def)
  with assms(1) have c: "created a env i = Some []"
    using updateLoop_to_EOF [of a env i us rest "[]"] by (simp add: created_def)
  from create_task_created [OF c, of out hg]
  have s: "snd (create_task a env out hg i) = snd (task_setup a env out i [])"
    by auto
  have "\<not> opt_setup a \<longrightarrow> snd (task_setup a env out i []) = Returns None"
    by (simp add: task_setup_def)
  with c s show ?thesis
    by (simp add: create_task_prints create_task_appends)
qed

theorem create_task_EOF_without_COMPLETE_witness:
  "createInstance env_eof 0 (opt_builderType opts_two) =
     Inr (map Update [\<lparr>Status = PENDING, WaitersAhead = 2, GomoteId = []\<rparr>] @ EOF # []) \<and>
   created opts_two env_eof 0 = Some [] \<and>
   prints (steps (create_task opts_two env_eof [] True 0)) = [[]] \<and>
   appends (steps (create_task opts_two env_eof [] True 0)) = [[]] \<and>
   snd (create_task opts_two env_eof [] True 0) = Returns None"
proof -
  let ?us = "[\<lparr>Status = PENDING, WaitersAhead = 2, GomoteId = []\<rparr>]"
  have h1: "createInstance env_eof 0 (opt_builderType opts_two) =
      Inr (map Update ?us @ EOF # [])"
    by (simp add: env_eof_def env_two_def)
  have h2: "\<forall>u \<in> set ?us. Status u \<noteq> COMPLETE"
    by simp
  have s: "\<not> opt_setup opts_two"
    by (simp add: opts_two_def)
  note t = create_task_EOF_without_COMPLETE [OF h1 h2, of "[]" True]
  from t have c: "created opts_two env_eof 0 = Some []"
    by blast
  from t have p: "prints (steps (create_task opts_two env_eof [] True 0)) = [[]]"
    by blast
  from t have "appends (steps (create_task opts_two env_eof [] True 0)) =
      (if True then [[]] else [])"
    by blast
  then have q: "appends (steps (create_task opts_two env_eof [] True 0)) = [[]]"
    by simp
  from t s have r: "snd (create_task opts_two env_eof [] True 0) = Returns None"
    by blast
  from h1 c p q r show ?thesis by blast
qed

text \<open>
  A task with \<open>setup\<close> whose stream ends without a \<open>COMPLETE\<close> update: it prints the
  empty ID, pushes to the instance of that name and returns the error of the push.
\<close>

theorem create_task_EOF_setup_fails:
  "create_task opts_win env_eof ''/tmp/gomote1'' False 0 =
     ([Call (CreateInstance ''windows-amd64''), Call Recv,
       Stderr (StillCreating ''windows-amd64'' 1 2), Call Recv, Stdout [],
       Call GetGOROOT, Call (DoPush [] ''/usr/lib/go'' False True)],
      Returns (Some ''no instance name''))"
  by code_simp

text \<open>
  C5. Whatever the number of tasks and the order in which the scheduler lets them run:
  when a group is supplied and every task returns nil, \<open>Create\<close> returns under every
  scheduler that gives the tasks their turns, and when it has returned the group holds
  its former instance IDs followed by exactly \<open>count\<close> new ones, which are the IDs the
  tasks recorded, each as often as a task recorded it (so exactly once each when the
  recorded IDs are distinct). Nothing in the code removes a repeated ID or looks at the
  former content of the group.
\<close>

theorem Create_group_complete:
  assumes "\<forall>i < nat (opt_count a). snd (create_task a env out True i) = Returns None"
  shows "(fair sched (map steps (Create_tasks a env out (Some g))) \<longrightarrow>
            (\<exists>r. snd (Create a env out (Some g) sched) = Returns r)) \<and>
         (\<forall>r. snd (Create a env out (Some g) sched) = Returns r \<longrightarrow>
            (\<exists>new. grp (fst (Create a env out (Some g) sched)) =
                     Some (g\<lparr>Instances := Instances g @ new\<rparr>) \<and>
                   length new = nat (opt_count a) \<and>
                   mset new = mset (List.map_filter (created a env) [0..<nat (opt_count a)]) \<and>
                   (distinct (List.map_filter (created a env) [0..<nat (opt_count a)]) \<longrightarrow>
                      distinct new)))"
proof (intro conjI allI impI)
  assume "fair sched (map steps (Create_tasks a env out (Some g)))"
  moreover from assms
  have "\<forall>i < nat (opt_count a). snd (create_task a env out (Some g \<noteq> None) i) \<noteq> NoReturn"
    by simp
  ultimately show "\<exists>r. snd (Create a env out (Some g) sched) = Returns r"
    by (rule Create_returns)
next
  fix r
  assume r: "snd (Create a env out (Some g) sched) = Returns r"
  let ?n = "nat (opt_count a)"
  let ?h = "Create_history a env out (Some g) sched"
  let ?ids = "List.map_filter (created a env) [0..<?n]"
  define new where "new = appends (map snd ?h)"
  from r have "all_done ?n ?h"
    by (rule Create_Returns_all_done)
  then have m: "mset new = mset ?ids"
    unfolding new_def by (rule Create_appends)
  have g: "grp (fst (Create a env out (Some g) sched)) = Some (g\<lparr>Instances := Instances g @ new\<rparr>)"
    by (simp add: Create_grp new_def)
  have "\<forall>i \<in> set [0..<?n]. created a env i \<noteq> None"
    using assms create_task_ok_created [of a env out True] by fastforce
  then have "length ?ids = ?n"
    using length_map_filter_all [of "[0..<?n]" "created a env"] by simp
  with m have l: "length new = ?n"
    by (metis size_mset)
  from m have "distinct ?ids \<longrightarrow> distinct new"
    by (metis mset_eq_imp_distinct_iff)
  with g l m show "\<exists>new. grp (fst (Create a env out (Some g) sched)) =
                     Some (g\<lparr>Instances := Instances g @ new\<rparr>) \<and>
                   length new = ?n \<and> mset new = mset ?ids \<and> (distinct ?ids \<longrightarrow> distinct new)"
    by blast
qed

theorem Create_group_complete_witness:
  "snd (create_task opts_two env_two [] True 0) = Returns None \<and>
   snd (create_task opts_two env_two [] True 1) = Returns None \<and>
   fair sched_two (map steps (Create_tasks opts_two env_two [] (Some group_G))) \<and>
   (\<exists>r. snd (Create opts_two env_two [] (Some group_G) sched_two) = Returns r) \<and>
   (\<exists>new. grp (fst (Create opts_two env_two [] (Some group_G) sched_two)) =
            Some (group_G\<lparr>Instances := new\<rparr>) \<and>
          length new = 2 \<and> mset new = {#''gomote-a'', ''gomote-b''#} \<and> distinct new)"
proof -
  have t0: "snd (create_task opts_two env_two [] True 0) = Returns None"
    by code_simp
  have t1: "snd (create_task opts_two env_two [] True 1) = Returns None"
    by code_simp
  have f: "fair sched_two (map steps (Create_tasks opts_two env_two [] (Some group_G)))"
    by code_simp
  have n: "nat (opt_count opts_two) = 2"
    by (simp add: opts_two_def)
  have all: "\<forall>i < nat (opt_count opts_two). snd (create_task opts_two env_two [] True i) = Returns None"
    unfolding n using t0 t1 by (auto simp: less_2_cases_iff)
  have ids: "List.map_filter (created opts_two env_two) [0..<2] = [''gomote-a'', ''gomote-b'']"
    by code_simp
  have e: "Instances group_G = []"
    by (simp add: group_G_def)
  note t = Create_group_complete [OF all, where sched = sched_two and g = group_G]
  from t f obtain r where r: "snd (Create opts_two env_two [] (Some group_G) sched_two) = Returns r"
    by blast
  with t have "\<exists>new. grp (fst (Create opts_two env_two [] (Some group_G) sched_two)) =
            Some (group_G\<lparr>Instances := Instances group_G @ new\<rparr>) \<and>
          length new = nat (opt_count opts_two) \<and>
          mset new = mset (List.map_filter (created opts_two env_two) [0..<nat (opt_count opts_two)]) \<and>
          (distinct (List.map_filter (created opts_two env_two) [0..<nat (opt_count opts_two)]) \<longrightarrow>
             distinct new)"
    by blast
  then have "\<exists>new. grp (fst (Create opts_two env_two [] (Some group_G) sched_two)) =
            Some (group_G\<lparr>Instances := new\<rparr>) \<and>
          length new = 2 \<and> mset new = {#''gomote-a'', ''gomote-b''#} \<and> distinct new"
    unfolding n ids e by auto
  with t0 t1 f r show ?thesis by blast
qed

text \<open>
  Two runs of two tasks that all return nil. In the first the group already holds an
  instance and ends with three IDs. In the second both streams end without a
  \<open>COMPLETE\<close> update, both tasks record the empty ID, and the group ends with the same
  ID twice.
\<close>

theorem Create_group_former_and_repeated:
  "opt_count opts_two = 2 \<and>
   snd (create_task opts_two env_two [] True 0) = Returns None \<and>
   snd (create_task opts_two env_two [] True 1) = Returns None \<and>
   snd (Create opts_two env_two [] (Some group_old) sched_two) = Returns None \<and>
   grp (fst (Create opts_two env_two [] (Some group_old) sched_two)) =
     Some \<lparr>GroupName = ''G'', Instances = [''gomote-0'', ''gomote-b'', ''gomote-a'']\<rparr> \<and>
   snd (create_task opts_two env_eof [] True 0) = Returns None \<and>
   snd (create_task opts_two env_eof [] True 1) = Returns None \<and>
   snd (Create opts_two env_eof [] (Some group_G) sched_alt) = Returns None \<and>
   grp (fst (Create opts_two env_eof [] (Some group_G) sched_alt)) =
     Some \<lparr>GroupName = ''G'', Instances = [[], []]\<rparr>"
  by code_simp

text \<open>
  C6. An RPC error of the initial \<open>CreateInstance\<close> call is returned without the index
  of the task. Of two tasks, the second (index 2 counted from 1) fails at
  \<open>CreateInstance\<close> and returns first: its message, which \<open>Create\<close> returns,
  carries the translated status and names no task, unlike the message for an error of
  \<open>Recv\<close>.
\<close>

theorem CreateInstance_error_without_index:
  "create_task opts_two env_both_err [] True 1 =
     ([Call (CreateInstance ''linux-amd64'')],
      Returns (Some ''failed to create buildlet: unavailable'')) \<and>
   snd (Create opts_two env_both_err [] (Some group_G) sched_rev) =
     Returns (Some ''failed to create buildlet: unavailable'')"
  by code_simp




text \<open>
  C8. Every call of run that a task of any run makes passes \<open>go/src/make.bat\<close> when the
  name of the builder type contains \<open>windows\<close> and \<open>go/src/make.bash\<close> otherwise, with
  an empty argument list, and it is made only with \<open>setup\<close>. A task that reaches the
  run step (its instance created, GOROOT resolved, the push done) makes that call, for
  its instance and the temporary directory.
\<close>

theorem run_command_by_builder_type:
  "((i, DoRun inst dir cmd args det) \<in> set (calls (fst (Create a env out g sched))) \<longrightarrow>
      opt_setup a \<and>
      cmd = (if strings_Contains (opt_builderType a) ''windows''
             then ''go/src/make.bat'' else ''go/src/make.bash'') \<and>
      args = []) \<and>
   (opt_setup a \<and> created a env j = Some inst' \<and> getGOROOT env j = Inr goroot \<and>
    doPush env j inst' goroot False (opt_count a = 1) = None \<longrightarrow>
      DoRun inst' out
        (if strings_Contains (opt_builderType a) ''windows''
         then ''go/src/make.bat'' else ''go/src/make.bash'') [] (opt_count a = 1)
        \<in> set (calls_of (fst (create_task a env out hg j))))"
proof -
  have made: "opt_setup a \<and>
      cmd = (if strings_Contains (opt_builderType a) ''windows''
             then ''go/src/make.bat'' else ''go/src/make.bash'') \<and>
      args = []"
    if "(i, DoRun inst dir cmd args det) \<in> set (calls (fst (Create a env out g sched)))"
  proof -
    from that have "DoRun inst dir cmd args det \<in>
        set (calls_of (fst (create_task a env out (g \<noteq> None) i)))"
      by (blast dest: Create_calls)
    then obtain x where
      "DoRun inst dir cmd args det \<in> set (calls_of (fst (task_setup a env out i x)))"
      by (auto simp: setup_call_in_task)
    then show ?thesis
      by (simp add: task_setup_DoRun make_script_def)
  qed
  have reached: "DoRun inst' out
        (if strings_Contains (opt_builderType a) ''windows''
         then ''go/src/make.bat'' else ''go/src/make.bash'') [] (opt_count a = 1)
        \<in> set (calls_of (fst (create_task a env out hg j)))"
    if "opt_setup a \<and> created a env j = Some inst' \<and> getGOROOT env j = Inr goroot \<and>
      doPush env j inst' goroot False (opt_count a = 1) = None"
    using that by (simp add: setup_call_in_task task_setup_DoRun make_script_def)
  from made reached show ?thesis by blast
qed

theorem run_command_by_builder_type_witness:
  "(0, DoRun ''gomote-a'' ''/tmp/gomote1'' ''go/src/make.bat'' [] True)
     \<in> set (calls (fst (Create opts_win env_two ''/tmp/gomote1'' None sched_one))) \<and>
   strings_Contains (opt_builderType opts_win) ''windows'' \<and>
   opt_setup opts_win \<and> created opts_win env_two 0 = Some ''gomote-a'' \<and>
   getGOROOT env_two 0 = Inr ''/usr/lib/go'' \<and>
   doPush env_two 0 ''gomote-a'' ''/usr/lib/go'' False (opt_count opts_win = 1) = None \<and>
   DoRun ''gomote-a'' ''/tmp/gomote1'' ''go/src/make.bat'' [] True
     \<in> set (calls_of (fst (create_task opts_win env_two ''/tmp/gomote1'' False 0))) \<and>
   \<not> strings_Contains (opt_builderType opts_two) ''windows''"
proof -
  have r: "(0, DoRun ''gomote-a'' ''/tmp/gomote1'' ''go/src/make.bat'' [] True)
      \<in> set (calls (fst (Create opts_win env_two ''/tmp/gomote1'' None sched_one)))"
    by code_simp
  have w: "strings_Contains (opt_builderType opts_win) ''windows''"
    by code_simp
  have l: "\<not> strings_Contains (opt_builderType opts_two) ''windows''"
    by code_simp
  have on: "opt_setup opts_win"
    by (simp add: opts_win_def)
  have c: "created opts_win env_two 0 = Some ''gomote-a''"
    by code_simp
  have g: "getGOROOT env_two 0 = Inr ''/usr/lib/go''"
    by (simp add: env_two_def)
  have p: "doPush env_two 0 ''gomote-a'' ''/usr/lib/go'' False (opt_count opts_win = 1) = None"
    by (simp add: env_two_def)
  have n: "(opt_count opts_win = 1) = True"
    by (simp add: opts_win_def)
  from run_command_by_builder_type
    [of 0 "''gomote-a''" "''/tmp/gomote1''" "''go/src/make.bat''" "[]" True opts_win env_two
        "''/tmp/gomote1''" None sched_one 0 "''gomote-a''" "''/usr/lib/go''" False]
    on c g p w
  have "DoRun ''gomote-a'' ''/tmp/gomote1'' ''go/src/make.bat'' [] (opt_count opts_win = 1)
      \<in> set (calls_of (fst (create_task opts_win env_two ''/tmp/gomote1'' False 0)))"
    by simp
  then have "DoRun ''gomote-a'' ''/tmp/gomote1'' ''go/src/make.bat'' [] True
      \<in> set (calls_of (fst (create_task opts_win env_two ''/tmp/gomote1'' False 0)))"
    unfolding n .
  with r w on c g p l show ?thesis by blast
qed

section \<open>Properties of the builder catalog\<close>

lemma builders_range_names:
  "map Name (builders_range hosts bs bt) = map Name bt @ map fst (filter (kept hosts) bs)"
  by (induction hosts bs bt rule: builders_range.induct)
     (auto simp: kept_def split: option.splits)

lemma sort_Slice_sorted: "sorted (map Name (sort_Slice bt))"
  by (simp add: sort_Slice_def)

lemma sort_Slice_set: "set (sort_Slice bt) = set bt"
  by (simp add: sort_Slice_def)

lemma builders_name_set:
  "builders (Decoded r) = Inr bt \<Longrightarrow>
     Name ` set bt = fst ` {e \<in> set (Builders r). kept (Hosts r) e}"
proof -
  assume "builders (Decoded r) = Inr bt"
  then have "bt = sort_Slice (builders_range (Hosts r) (Builders r) [])"
    by (simp add: builders_def)
  then have "Name ` set bt = set (map Name (builders_range (Hosts r) (Builders r) []))"
    by (simp add: sort_Slice_set)
  then show ?thesis
    by (simp add: builders_range_names)
qed

lemma builders_names_distinct:
  "distinct (map fst bs) \<Longrightarrow> distinct (map Name (builders_range hosts bs []))"
  by (simp add: builders_range_names distinct_map_filter)

lemma builders_absent:
  assumes "distinct (map fst (Builders r))"
    and "(b, bi) \<in> set (Builders r)"
    and "\<not> kept (Hosts r) (b, bi)"
  shows "b \<notin> Name ` set (sort_Slice (builders_range (Hosts r) (Builders r) []))"
proof
  assume "b \<in> Name ` set (sort_Slice (builders_range (Hosts r) (Builders r) []))"
  then have "b \<in> set (map Name (builders_range (Hosts r) (Builders r) []))"
    by (simp add: sort_Slice_set)
  then obtain e where e: "e \<in> set (Builders r)" "kept (Hosts r) e" "fst e = b"
    by (auto simp: builders_range_names)
  from assms(1) e(1) assms(2) e(3) have "e = (b, bi)"
    by (metis eq_key_imp_eq_value prod.collapse)
  with e(2) assms(3) show False by simp
qed

text \<open>
  The names being distinct, a permutation of the collected list that is sorted by name
  is the list \<open>sort_Slice\<close> returns, whatever the sorting algorithm; and the order in
  which the loop visits the map does not change the result.
\<close>

lemma sort_Slice_unique:
  assumes "distinct (map Name bt)" and "mset bt' = mset bt" and "sorted (map Name bt')"
  shows "bt' = sort_Slice bt"
proof -
  have s: "set bt' = set bt"
    using assms(2) by (rule mset_eq_setD)
  have d: "distinct (map Name bt')"
    using assms(1,2) by (metis distinct_map mset_eq_imp_distinct_iff s)
  have "inj_on Name (set bt' \<union> set (sort_Slice bt))"
    using assms(1) s by (simp add: distinct_map sort_Slice_set)
  moreover have "distinct (map Name (sort_Slice bt))"
    using assms(1) by (simp add: sort_Slice_def distinct_map)
  moreover have "set bt' = set (sort_Slice bt)"
    using s by (simp add: sort_Slice_set)
  ultimately show ?thesis
    using assms(3) d sort_Slice_sorted [of bt]
    by (blast intro: map_sorted_distinct_set_unique)
qed

lemma builders_range_mset:
  "mset (builders_range hosts bs bt) =
     mset bt + mset (map (\<lambda>e. \<lparr>Name = fst e, IsReverse = hIsReverse (the (hosts (HostType (snd e)))),
                               ExpectNum = hExpectNum (the (hosts (HostType (snd e))))\<rparr>)
                    (filter (kept hosts) bs))"
  by (induction hosts bs bt rule: builders_range.induct)
     (auto simp: kept_def split: option.splits)

lemma builders_order_independent:
  assumes "distinct (map fst bs)" and "mset bs' = mset bs"
  shows "sort_Slice (builders_range hosts bs' []) = sort_Slice (builders_range hosts bs [])"
proof -
  have "mset (builders_range hosts bs' []) = mset (builders_range hosts bs [])"
  proof -
    from assms(2) have "mset (filter (kept hosts) bs') = mset (filter (kept hosts) bs)"
      by (simp only: mset_filter)
    then show ?thesis
      by (simp only: builders_range_mset mset_map)
  qed
  moreover have "distinct (map Name (builders_range hosts bs []))"
    using assms(1) by (rule builders_names_distinct)
  ultimately show ?thesis
    using sort_Slice_unique [of "builders_range hosts bs []" "sort_Slice (builders_range hosts bs' [])"]
    by (simp add: sort_Slice_def sort_Slice_sorted [unfolded sort_Slice_def])
qed

lemma example_resj_builders:
  "builders (Decoded example_resj) =
     Inr [\<lparr>Name = ''aix-ppc64'', IsReverse = True, ExpectNum = 2\<rparr>,
          \<lparr>Name = ''linux-amd64'', IsReverse = False, ExpectNum = 0\<rparr>]"
  by (simp add: builders_def example_resj_def sort_Slice_def)

text \<open>
  C9. When the response decodes, \<open>builders\<close> returns a list that holds no builder whose
  name starts with \<open>misc-compile\<close>, no builder whose host descriptor is not reverse and
  names neither a container image nor a VM image, and whose names ascend in the
  lexicographic order of their bytes (strictly, the keys of the map being distinct).
\<close>

theorem builders_filtered_sorted:
  assumes "distinct (map fst (Builders r))"
  shows "\<exists>bt. builders (Decoded r) = Inr bt \<and>
           (\<forall>(b, bi) \<in> set (Builders r). prefix ''misc-compile'' b \<longrightarrow> b \<notin> Name ` set bt) \<and>
           (\<forall>(b, bi) \<in> set (Builders r). \<forall>hi.
               Hosts r (HostType bi) = Some hi \<and> \<not> hIsReverse hi \<and>
               ContainerImage hi = [] \<and> VMImage hi = [] \<longrightarrow> b \<notin> Name ` set bt) \<and>
           sorted (map Name bt) \<and> sorted_wrt (<) (map Name bt)"
proof -
  define bt where "bt = sort_Slice (builders_range (Hosts r) (Builders r) [])"
  have ret: "builders (Decoded r) = Inr bt"
    by (simp add: builders_def bt_def)
  have key: "b \<notin> Name ` set bt" if "(b, bi) \<in> set (Builders r)" "\<not> kept (Hosts r) (b, bi)"
    for b bi
    unfolding bt_def using assms that by (rule builders_absent)
  have p1: "\<forall>(b, bi) \<in> set (Builders r). prefix ''misc-compile'' b \<longrightarrow> b \<notin> Name ` set bt"
    using key by (auto simp: kept_def)
  have p2: "\<forall>(b, bi) \<in> set (Builders r). \<forall>hi.
               Hosts r (HostType bi) = Some hi \<and> \<not> hIsReverse hi \<and>
               ContainerImage hi = [] \<and> VMImage hi = [] \<longrightarrow> b \<notin> Name ` set bt"
  proof -
    have "b \<notin> Name ` set bt"
      if "(b, bi) \<in> set (Builders r)" and "Hosts r (HostType bi) = Some hi"
        and "\<not> hIsReverse hi" and "ContainerImage hi = []" and "VMImage hi = []"
      for b bi hi
      using that key [of b bi] by (simp add: kept_def)
    then show ?thesis by blast
  qed
  have s: "sorted (map Name bt)"
    unfolding bt_def by (rule sort_Slice_sorted)
  have "distinct (map Name bt)"
    unfolding bt_def sort_Slice_def
    using builders_names_distinct [OF assms, of "Hosts r"]
    by (simp add: distinct_map)
  with s have "sorted_wrt (<) (map Name bt)"
    by (simp add: strict_sorted_iff)
  with ret p1 p2 s show ?thesis by blast
qed

theorem builders_filtered_sorted_witness:
  "distinct (map fst (Builders example_resj)) \<and>
   (\<exists>bt. builders (Decoded example_resj) = Inr bt \<and>
      ''misc-compile-mips'' \<notin> Name ` set bt \<and> ''plan9-386'' \<notin> Name ` set bt \<and>
      map Name bt = [''aix-ppc64'', ''linux-amd64''] \<and> sorted (map Name bt))"
proof -
  have h: "distinct (map fst (Builders example_resj))"
    by (simp add: example_resj_def)
  from builders_filtered_sorted [OF h] obtain bt where
    bt: "builders (Decoded example_resj) = Inr bt" "sorted (map Name bt)" by blast
  from bt(1) have "bt = [\<lparr>Name = ''aix-ppc64'', IsReverse = True, ExpectNum = 2\<rparr>,
          \<lparr>Name = ''linux-amd64'', IsReverse = False, ExpectNum = 0\<rparr>]"
    by (simp add: example_resj_builders)
  with h bt show ?thesis by simp
qed

text \<open>
  C10. The loop also skips, without a message, every builder whose \<open>HostType\<close> has no
  entry in \<open>Hosts\<close>: such a builder is absent from the result whatever its name, so
  also when its name does not start with \<open>misc-compile\<close>.
\<close>

theorem builders_drops_unknown_host:
  assumes "distinct (map fst (Builders r))"
    and "(b, bi) \<in> set (Builders r)"
    and "Hosts r (HostType bi) = None"
  shows "\<exists>bt. builders (Decoded r) = Inr bt \<and> b \<notin> Name ` set bt"
proof -
  define bt where "bt = sort_Slice (builders_range (Hosts r) (Builders r) [])"
  have ret: "builders (Decoded r) = Inr bt"
    by (simp add: builders_def bt_def)
  from assms(3) have "\<not> kept (Hosts r) (b, bi)"
    by (simp add: kept_def)
  with assms(1,2) have "b \<notin> Name ` set bt"
    unfolding bt_def by (rule builders_absent)
  with ret show ?thesis by blast
qed

theorem builders_drops_unknown_host_witness:
  "distinct (map fst (Builders example_resj)) \<and>
   (''solaris-amd64'', \<lparr>HostType = ''host-gone''\<rparr>) \<in> set (Builders example_resj) \<and>
   Hosts example_resj ''host-gone'' = None \<and>
   \<not> prefix ''misc-compile'' ''solaris-amd64'' \<and>
   (\<exists>bt. builders (Decoded example_resj) = Inr bt \<and> ''solaris-amd64'' \<notin> Name ` set bt)"
proof -
  have h1: "distinct (map fst (Builders example_resj))"
    by (simp add: example_resj_def)
  have h2: "(''solaris-amd64'', \<lparr>HostType = ''host-gone''\<rparr>) \<in> set (Builders example_resj)"
    by (simp add: example_resj_def)
  have h3: "Hosts example_resj (HostType \<lparr>HostType = ''host-gone''\<rparr>) = None"
    by (simp add: example_resj_def)
  from builders_drops_unknown_host [OF h1 h2 h3] h1 h2 h3 show ?thesis by simp
qed

end
